theory Spec2Isabelle
  imports Main "HOL-Library.Word"
begin

section \<open>Shared types\<close>

text \<open>
  Go's \<open>uint64\<close> is a 64-bit word: \<open>+\<close> and \<open>-\<close> wrap around, comparisons are
  unsigned. Node identifiers (\<open>ids.ShortID\<close>) and chain or vertex identifiers (\<open>ids.ID\<close>)
  are fixed-size byte arrays that the code only compares for equality and uses as map
  keys; they are natural numbers here.
\<close>

type_synonym uint64 = "64 word"
type_synonym ShortID = nat
type_synonym ID = nat

text \<open>
  Modelled from the spec: \<open>choices.Status\<close> of package \<open>snow/choices\<close>, which is not
  among the sources. The spec (section 3) gives the four values; a variable of the type
  that was never assigned is \<open>Unknown\<close>. \<open>Fetched\<close> holds of a vertex whose bytes the node
  has: it is processing or decided.
\<close>

datatype choicesStatus = Unknown | Processing | Rejected | Accepted

definition Fetched :: "choicesStatus \<Rightarrow> bool" where
  "Fetched st = (st = Processing \<or> st = Rejected \<or> st = Accepted)"

text \<open>
  Go's \<open>error\<close> values. A function that returns \<open>error\<close> returns an \<open>error option\<close>
  here, \<open>None\<close> being \<open>nil\<close>. The errors of the database, of the virtual machine, of a
  handler and of the stateless verification of a vertex carry a text. A Go panic on a
  nil pointer is \<open>errNilPointer\<close>; \<open>errInvalidPointer\<close> is the use of an address at which
  the model's heap holds no object, which no Go program can do.
\<close>

datatype error =
    errOverflow
  | errUnderflow
  | HandlerErr string
  | errAccepting string ID ID error
  | errHandlerExists string ID
  | DatabaseErr string
  | VMErr string
  | StatelessErr string
  | errNilPointer
  | errInvalidPointer
  | errUnknownVertex
  | errGetParents choicesStatus
  | errGetTxs choicesStatus
  | errSetEdge ID error
  | errStopVertexNotAllowedTimestamp
  | errStopVertexAlreadyAccepted
  | errUnexpectedEdges
  | errUnexpectedDependencyStopVtx

section \<open>utils/math: checked 64-bit arithmetic\<close>

text \<open>
  Modelled from the spec: \<open>math.Add64\<close> and \<open>math.Sub64\<close> of package \<open>utils/math\<close>,
  which is not among the sources. The spec (section 4.B) says that adding fails with
  \<open>Overflow\<close> if the sum exceeds the largest \<open>uint64\<close>, and that removing saturates at
  0; the comment in \<open>RemoveWeightForNode\<close> says that \<open>Sub64\<close> returns 0 on error.
  Both return a pair of a value and an error, as the Go functions do.
\<close>

definition Add64 :: "uint64 \<Rightarrow> uint64 \<Rightarrow> uint64 \<times> error option" where
  "Add64 a b = (if unat a + unat b < 2 ^ 64 then (a + b, None) else (0, Some errOverflow))"

definition Sub64 :: "uint64 \<Rightarrow> uint64 \<Rightarrow> uint64 \<times> error option" where
  "Sub64 a b = (if a < b then (0, Some errUnderflow) else (a - b, None))"

section \<open>snow/engine/common/tracker: the weight tracker\<close>

text \<open>
  \<open>beacons\<close> is the validator set; only \<open>GetWeight\<close> is called on it, which returns
  the weight of a node and whether the node is in the set: a partial map.
\<close>

record weightTracker =
  beacons :: "ShortID \<rightharpoonup> uint64"
  startupAlpha :: uint64
  weight :: uint64
  enoughConnectedWeight :: bool

definition NewWeightTracker :: "(ShortID \<rightharpoonup> uint64) \<Rightarrow> uint64 \<Rightarrow> weightTracker" where
  "NewWeightTracker bs alpha =
     \<lparr>beacons = bs, startupAlpha = alpha, weight = 0, enoughConnectedWeight = False\<rparr>"

text \<open>
  The methods mutate the tracker through their pointer receiver and return an error:
  the model returns the tracker after the call and the error.
\<close>

definition AddWeightForNode :: "weightTracker \<Rightarrow> ShortID \<Rightarrow> weightTracker \<times> error option" where
  "AddWeightForNode wt nodeID =
     (if enoughConnectedWeight wt then (wt, None)
      else case beacons wt nodeID of
        None \<Rightarrow> (wt, None)
      | Some w \<Rightarrow>
          (case Add64 w (weight wt) of
             (_, Some err) \<Rightarrow> (wt, Some err)
           | (w', None) \<Rightarrow>
               let wt1 = wt\<lparr>weight := w'\<rparr>;
                   wt2 = (if startupAlpha wt1 \<le> weight wt1
                          then wt1\<lparr>enoughConnectedWeight := True\<rparr> else wt1)
               in (wt2, None)))"

definition RemoveWeightForNode :: "weightTracker \<Rightarrow> ShortID \<Rightarrow> weightTracker \<times> error option" where
  "RemoveWeightForNode wt nodeID =
     (case beacons wt nodeID of
        Some w \<Rightarrow> (wt\<lparr>weight := fst (Sub64 (weight wt) w)\<rparr>, None)
      | None \<Rightarrow> (wt, None))"

definition EnoughConnectedWeight :: "weightTracker \<Rightarrow> bool" where
  "EnoughConnectedWeight wt = enoughConnectedWeight wt"

text \<open>
  A sequence of connect and disconnect events, applied in order. The caller may drop the
  error of a call; the tracker it has mutated stays.
\<close>

datatype trackerCall = AddWeight ShortID | RemoveWeight ShortID

fun trackerStep :: "weightTracker \<Rightarrow> trackerCall \<Rightarrow> weightTracker" where
  "trackerStep wt (AddWeight n) = fst (AddWeightForNode wt n)"
| "trackerStep wt (RemoveWeight n) = fst (RemoveWeightForNode wt n)"

definition trackerRun :: "weightTracker \<Rightarrow> trackerCall list \<Rightarrow> weightTracker" where
  "trackerRun wt cs = foldl trackerStep wt cs"

subsection \<open>Properties of the weight tracker\<close>

lemma Add64_cases:
  "Add64 a b = (a + b, None) \<or> Add64 a b = (0, Some errOverflow)"
  by (simp add: Add64_def)

lemma AddWeightForNode_latched:
  "enoughConnectedWeight wt \<Longrightarrow> AddWeightForNode wt n = (wt, None)"
  by (simp add: AddWeightForNode_def)

lemma AddWeightForNode_keeps:
  "enoughConnectedWeight wt \<Longrightarrow> enoughConnectedWeight (fst (AddWeightForNode wt n))"
  by (simp add: AddWeightForNode_latched)

lemma RemoveWeightForNode_keeps:
  "enoughConnectedWeight (fst (RemoveWeightForNode wt n)) = enoughConnectedWeight wt"
  by (simp add: RemoveWeightForNode_def split: option.splits)

lemma trackerStep_keeps:
  "enoughConnectedWeight wt \<Longrightarrow> enoughConnectedWeight (trackerStep wt c)"
  by (cases c) (simp_all add: AddWeightForNode_keeps RemoveWeightForNode_keeps)

lemma trackerRun_keeps:
  "enoughConnectedWeight wt \<Longrightarrow> enoughConnectedWeight (trackerRun wt cs)"
  unfolding trackerRun_def
  by (induction cs arbitrary: wt) (simp_all add: trackerStep_keeps)

lemma AddWeightForNode_sets:
  assumes "\<not> enoughConnectedWeight wt"
  shows "enoughConnectedWeight (fst (AddWeightForNode wt n)) =
           (\<exists>w. beacons wt n = Some w \<and> unat w + unat (weight wt) < 2 ^ 64 \<and>
                startupAlpha wt \<le> w + weight wt)"
  using assms
  by (auto simp: AddWeightForNode_def Add64_def Let_def split: option.splits)

text \<open>
  C5: \<open>EnoughConnectedWeight\<close> is a one-way latch. A call of \<open>AddWeightForNode\<close> on a
  tracker whose latch is not yet set sets it exactly when the call adds the weight of a
  beacon (without overflow) and the cumulative tracked weight is then at least
  \<open>startupAlpha\<close>. Once the latch is set, every sequence of \<open>AddWeightForNode\<close> and
  \<open>RemoveWeightForNode\<close> calls leaves it set, whatever the tracked weight becomes.
\<close>

theorem C5_enoughConnectedWeight_latch:
  "(\<not> enoughConnectedWeight wt \<longrightarrow>
      EnoughConnectedWeight (fst (AddWeightForNode wt n)) =
        (\<exists>w. beacons wt n = Some w \<and> snd (Add64 w (weight wt)) = None \<and>
             weight (fst (AddWeightForNode wt n)) = w + weight wt \<and>
             startupAlpha wt \<le> weight (fst (AddWeightForNode wt n)))) \<and>
   (enoughConnectedWeight wt \<longrightarrow> EnoughConnectedWeight (trackerRun wt cs))"
proof (intro conjI impI)
  assume off: "\<not> enoughConnectedWeight wt"
  show "EnoughConnectedWeight (fst (AddWeightForNode wt n)) =
        (\<exists>w. beacons wt n = Some w \<and> snd (Add64 w (weight wt)) = None \<and>
             weight (fst (AddWeightForNode wt n)) = w + weight wt \<and>
             startupAlpha wt \<le> weight (fst (AddWeightForNode wt n)))"
  proof (cases "beacons wt n")
    case None
    with off show ?thesis
      by (simp add: AddWeightForNode_def EnoughConnectedWeight_def)
  next
    case (Some w)
    from Add64_cases [of w "weight wt"] show ?thesis
    proof
      assume "Add64 w (weight wt) = (w + weight wt, None)"
      with off Some show ?thesis
        by (simp add: AddWeightForNode_def EnoughConnectedWeight_def Let_def)
    next
      assume "Add64 w (weight wt) = (0, Some errOverflow)"
      with off Some show ?thesis
        by (simp add: AddWeightForNode_def EnoughConnectedWeight_def)
    qed
  qed
next
  assume "enoughConnectedWeight wt"
  then show "EnoughConnectedWeight (trackerRun wt cs)"
    unfolding EnoughConnectedWeight_def by (rule trackerRun_keeps)
qed

text \<open>
  The witness: one beacon of weight 5 and \<open>startupAlpha = 5\<close>. Connecting the beacon
  sets the latch; disconnecting it afterwards brings the tracked weight to 0, below
  \<open>startupAlpha\<close>, and the latch stays set.
\<close>

theorem C5_enoughConnectedWeight_latch_witness:
  "\<not> enoughConnectedWeight (NewWeightTracker [1 \<mapsto> 5] 5) \<and>
   EnoughConnectedWeight (fst (AddWeightForNode (NewWeightTracker [1 \<mapsto> 5] 5) 1)) \<and>
   enoughConnectedWeight (fst (AddWeightForNode (NewWeightTracker [1 \<mapsto> 5] 5) 1)) \<and>
   EnoughConnectedWeight
     (trackerRun (fst (AddWeightForNode (NewWeightTracker [1 \<mapsto> 5] 5) 1)) [RemoveWeight 1]) \<and>
   weight (trackerRun (fst (AddWeightForNode (NewWeightTracker [1 \<mapsto> 5] 5) 1)) [RemoveWeight 1])
     < startupAlpha
         (trackerRun (fst (AddWeightForNode (NewWeightTracker [1 \<mapsto> 5] 5) 1)) [RemoveWeight 1])"
proof -
  let ?wt0 = "NewWeightTracker [1 \<mapsto> 5] 5"
  let ?wt1 = "fst (AddWeightForNode ?wt0 1)"
  have off: "\<not> enoughConnectedWeight ?wt0"
    by (simp add: NewWeightTracker_def)
  have on: "enoughConnectedWeight ?wt1"
    by (simp add: NewWeightTracker_def AddWeightForNode_def Add64_def)
  have below: "weight (trackerRun ?wt1 [RemoveWeight 1]) < startupAlpha (trackerRun ?wt1 [RemoveWeight 1])"
    by (simp add: NewWeightTracker_def AddWeightForNode_def Add64_def trackerRun_def
        RemoveWeightForNode_def Sub64_def)
  from C5_enoughConnectedWeight_latch [of ?wt0 1 "[]"] off on
  have a: "EnoughConnectedWeight ?wt1"
    by (simp add: EnoughConnectedWeight_def)
  from C5_enoughConnectedWeight_latch [of ?wt1 1 "[RemoveWeight 1]"] on
  have b: "EnoughConnectedWeight (trackerRun ?wt1 [RemoveWeight 1])"
    by blast
  from off a on b below show ?thesis by blast
qed

text \<open>
  C8: \<open>RemoveWeightForNode\<close> never returns a non-nil error, and the tracked weight
  saturates at 0: for a beacon whose weight exceeds the tracked weight the tracked weight
  becomes 0, otherwise the beacon's weight is subtracted; for a node that is no beacon
  the tracker is unchanged.
\<close>

theorem C8_RemoveWeightForNode_saturates:
  "snd (RemoveWeightForNode wt n) = None \<and>
   (\<forall>w. beacons wt n = Some w \<longrightarrow>
        weight (fst (RemoveWeightForNode wt n)) = (if weight wt < w then 0 else weight wt - w)) \<and>
   (beacons wt n = None \<longrightarrow> fst (RemoveWeightForNode wt n) = wt)"
  by (simp add: RemoveWeightForNode_def Sub64_def split: option.splits)

text \<open>
  The witness: tracked weight 3, a beacon of weight 5 disconnects (the tracked weight
  becomes 0, where \<open>3 - 5\<close> would wrap around to \<open>2^64 - 2\<close>), and a node that is no
  beacon disconnects.
\<close>

theorem C8_RemoveWeightForNode_saturates_witness:
  "beacons \<lparr>beacons = [1 \<mapsto> 5], startupAlpha = 9, weight = 3, enoughConnectedWeight = False\<rparr> 1
     = Some 5 \<and>
   weight \<lparr>beacons = [1 \<mapsto> 5], startupAlpha = 9, weight = 3, enoughConnectedWeight = False\<rparr> < 5 \<and>
   snd (RemoveWeightForNode
     \<lparr>beacons = [1 \<mapsto> 5], startupAlpha = 9, weight = 3, enoughConnectedWeight = False\<rparr> 1) = None \<and>
   weight (fst (RemoveWeightForNode
     \<lparr>beacons = [1 \<mapsto> 5], startupAlpha = 9, weight = 3, enoughConnectedWeight = False\<rparr> 1)) = 0 \<and>
   beacons \<lparr>beacons = [1 \<mapsto> 5], startupAlpha = 9, weight = 3, enoughConnectedWeight = False\<rparr> 2
     = None \<and>
   fst (RemoveWeightForNode
     \<lparr>beacons = [1 \<mapsto> 5], startupAlpha = 9, weight = 3, enoughConnectedWeight = False\<rparr> 2)
     = \<lparr>beacons = [1 \<mapsto> 5], startupAlpha = 9, weight = 3, enoughConnectedWeight = False\<rparr>"
proof -
  let ?wt = "\<lparr>beacons = [1 \<mapsto> 5], startupAlpha = 9, weight = 3, enoughConnectedWeight = False\<rparr>"
  have b1: "beacons ?wt 1 = Some 5" and b2: "beacons ?wt 2 = None" and lt: "weight ?wt < 5"
    by simp_all
  from C8_RemoveWeightForNode_saturates [of ?wt 1] b1 lt
  have "snd (RemoveWeightForNode ?wt 1) = None \<and> weight (fst (RemoveWeightForNode ?wt 1)) = 0"
    by simp
  moreover from C8_RemoveWeightForNode_saturates [of ?wt 2] b2
  have "fst (RemoveWeightForNode ?wt 2) = ?wt"
    by blast
  ultimately show ?thesis using b1 b2 lt by blast
qed

section \<open>snow/triggers: the event dispatcher\<close>

type_synonym bytes = "8 word list"

text \<open>
  \<open>snow.ConsensusContext\<close>: the dispatcher reads only the chain's ID from it.
\<close>

record ConsensusContext =
  ChainID :: ID

text \<open>
  A handler function is a Go value of type \<open>interface{}\<close>; the dispatcher asserts it to
  \<open>snow.Acceptor\<close>, \<open>snow.Rejector\<close> or \<open>snow.Issuer\<close>. It is the record of the methods
  it has: \<open>None\<close> where the type assertion fails. A method takes the context, the
  container's ID and the container, and returns an error.
\<close>

type_synonym eventMethod = "ConsensusContext \<Rightarrow> ID \<Rightarrow> bytes \<Rightarrow> error option"

record handlerFunc =
  asAcceptor :: "eventMethod option"
  asRejector :: "eventMethod option"
  asIssuer :: "eventMethod option"

record handler =
  handlerFunc :: handlerFunc
  dieOnError :: bool

text \<open>
  \<open>chainHandlers\<close> is a Go map from chain ID to a Go map from identifier to handler.
\<close>

record EventDispatcher =
  chainHandlers :: "ID \<rightharpoonup> (string \<rightharpoonup> handler)"

definition New :: EventDispatcher where
  "New = \<lparr>chainHandlers = Map.empty\<rparr>"

text \<open>
  What a call of \<open>Accept\<close>, \<open>Reject\<close> or \<open>Issue\<close> does: the identifiers of the handlers
  whose method it called, in the order of the calls; the identifiers for which it wrote
  an error to the log, in order; and the error it returns.
\<close>

record dispatched =
  invoked :: "string list"
  logged :: "string list"
  returned :: "error option"

definition called :: "string \<Rightarrow> bool \<Rightarrow> dispatched \<Rightarrow> dispatched" where
  "called i failed d =
     d\<lparr>invoked := i # invoked d, logged := (if failed then i # logged d else logged d)\<rparr>"

text \<open>
  \<open>for id, handler := range events\<close> visits every key of the Go map once, in an order
  that the Go runtime chooses and the language leaves unspecified. The order is the
  argument \<open>ks\<close> of the three functions below; \<open>rangeOrder events ks\<close> says that \<open>ks\<close> is an order in
  which \<open>range\<close> may visit \<open>events\<close>.
\<close>

definition rangeOrder :: "(string \<rightharpoonup> handler) \<Rightarrow> string list \<Rightarrow> bool" where
  "rangeOrder events ks = (distinct ks \<and> set ks = dom events)"

fun acceptLoop ::
  "(string \<rightharpoonup> handler) \<Rightarrow> ConsensusContext \<Rightarrow> ID \<Rightarrow> bytes \<Rightarrow> string list \<Rightarrow> dispatched" where
  "acceptLoop events ctx containerID container [] =
     \<lparr>invoked = [], logged = [], returned = None\<rparr>"
| "acceptLoop events ctx containerID container (i # ks) =
     (case events i of
        None \<Rightarrow> acceptLoop events ctx containerID container ks
      | Some h \<Rightarrow>
          (case asAcceptor (handlerFunc h) of
             None \<Rightarrow> acceptLoop events ctx containerID container ks
           | Some f \<Rightarrow>
               (case f ctx containerID container of
                  None \<Rightarrow> called i False (acceptLoop events ctx containerID container ks)
                | Some err \<Rightarrow>
                    if dieOnError h
                    then \<lparr>invoked = [i], logged = [i],
                          returned = Some (errAccepting i (ChainID ctx) containerID err)\<rparr>
                    else called i True (acceptLoop events ctx containerID container ks))))"

fun rejectLoop ::
  "(string \<rightharpoonup> handler) \<Rightarrow> ConsensusContext \<Rightarrow> ID \<Rightarrow> bytes \<Rightarrow> string list \<Rightarrow> dispatched" where
  "rejectLoop events ctx containerID container [] =
     \<lparr>invoked = [], logged = [], returned = None\<rparr>"
| "rejectLoop events ctx containerID container (i # ks) =
     (case events i of
        None \<Rightarrow> rejectLoop events ctx containerID container ks
      | Some h \<Rightarrow>
          (case asRejector (handlerFunc h) of
             None \<Rightarrow> rejectLoop events ctx containerID container ks
           | Some f \<Rightarrow>
               (case f ctx containerID container of
                  None \<Rightarrow> called i False (rejectLoop events ctx containerID container ks)
                | Some err \<Rightarrow> called i True (rejectLoop events ctx containerID container ks))))"

fun issueLoop ::
  "(string \<rightharpoonup> handler) \<Rightarrow> ConsensusContext \<Rightarrow> ID \<Rightarrow> bytes \<Rightarrow> string list \<Rightarrow> dispatched" where
  "issueLoop events ctx containerID container [] =
     \<lparr>invoked = [], logged = [], returned = None\<rparr>"
| "issueLoop events ctx containerID container (i # ks) =
     (case events i of
        None \<Rightarrow> issueLoop events ctx containerID container ks
      | Some h \<Rightarrow>
          (case asIssuer (handlerFunc h) of
             None \<Rightarrow> issueLoop events ctx containerID container ks
           | Some f \<Rightarrow>
               (case f ctx containerID container of
                  None \<Rightarrow> called i False (issueLoop events ctx containerID container ks)
                | Some err \<Rightarrow> called i True (issueLoop events ctx containerID container ks))))"

definition Accept ::
  "EventDispatcher \<Rightarrow> ConsensusContext \<Rightarrow> ID \<Rightarrow> bytes \<Rightarrow> string list \<Rightarrow> dispatched" where
  "Accept ed ctx containerID container ks =
     (case chainHandlers ed (ChainID ctx) of
        None \<Rightarrow> \<lparr>invoked = [], logged = [], returned = None\<rparr>
      | Some events \<Rightarrow> acceptLoop events ctx containerID container ks)"

definition Reject ::
  "EventDispatcher \<Rightarrow> ConsensusContext \<Rightarrow> ID \<Rightarrow> bytes \<Rightarrow> string list \<Rightarrow> dispatched" where
  "Reject ed ctx containerID container ks =
     (case chainHandlers ed (ChainID ctx) of
        None \<Rightarrow> \<lparr>invoked = [], logged = [], returned = None\<rparr>
      | Some events \<Rightarrow> rejectLoop events ctx containerID container ks)"

definition Issue ::
  "EventDispatcher \<Rightarrow> ConsensusContext \<Rightarrow> ID \<Rightarrow> bytes \<Rightarrow> string list \<Rightarrow> dispatched" where
  "Issue ed ctx containerID container ks =
     (case chainHandlers ed (ChainID ctx) of
        None \<Rightarrow> \<lparr>invoked = [], logged = [], returned = None\<rparr>
      | Some events \<Rightarrow> issueLoop events ctx containerID container ks)"

text \<open>
  \<open>RegisterChain\<close> stores the handler under its identifier in the chain's map, creating
  the map when the chain has none; it refuses an identifier the chain already has.
  Nothing records the order of the registrations.
\<close>

definition RegisterChain ::
  "EventDispatcher \<Rightarrow> ID \<Rightarrow> string \<Rightarrow> handlerFunc \<Rightarrow> bool \<Rightarrow> EventDispatcher \<times> error option" where
  "RegisterChain ed chainID identifier hf die =
     (let (events, ed1) =
            (case chainHandlers ed chainID of
               Some events \<Rightarrow> (events, ed)
             | None \<Rightarrow> (Map.empty, ed\<lparr>chainHandlers := (chainHandlers ed)(chainID \<mapsto> Map.empty)\<rparr>))
      in if identifier \<in> dom events
         then (ed1, Some (errHandlerExists identifier chainID))
         else (ed1\<lparr>chainHandlers := (chainHandlers ed1)
                  (chainID \<mapsto> events(identifier \<mapsto> \<lparr>handlerFunc = hf, dieOnError = die\<rparr>))\<rparr>,
               None))"

text \<open>Whether the handler stored under an identifier has the method of an event.\<close>

definition isAcceptor :: "(string \<rightharpoonup> handler) \<Rightarrow> string \<Rightarrow> bool" where
  "isAcceptor events i =
     (case events i of None \<Rightarrow> False | Some h \<Rightarrow> asAcceptor (handlerFunc h) \<noteq> None)"

definition isRejector :: "(string \<rightharpoonup> handler) \<Rightarrow> string \<Rightarrow> bool" where
  "isRejector events i =
     (case events i of None \<Rightarrow> False | Some h \<Rightarrow> asRejector (handlerFunc h) \<noteq> None)"

definition isIssuer :: "(string \<rightharpoonup> handler) \<Rightarrow> string \<Rightarrow> bool" where
  "isIssuer events i =
     (case events i of None \<Rightarrow> False | Some h \<Rightarrow> asIssuer (handlerFunc h) \<noteq> None)"

text \<open>The error, if any, that the method of an event returns for the handler stored
  under an identifier.\<close>

definition acceptError ::
  "(string \<rightharpoonup> handler) \<Rightarrow> ConsensusContext \<Rightarrow> ID \<Rightarrow> bytes \<Rightarrow> string \<Rightarrow> error option" where
  "acceptError events ctx containerID container i =
     (case events i of
        None \<Rightarrow> None
      | Some h \<Rightarrow>
          (case asAcceptor (handlerFunc h) of
             None \<Rightarrow> None
           | Some f \<Rightarrow> f ctx containerID container))"

definition rejectError ::
  "(string \<rightharpoonup> handler) \<Rightarrow> ConsensusContext \<Rightarrow> ID \<Rightarrow> bytes \<Rightarrow> string \<Rightarrow> error option" where
  "rejectError events ctx containerID container i =
     (case events i of
        None \<Rightarrow> None
      | Some h \<Rightarrow>
          (case asRejector (handlerFunc h) of
             None \<Rightarrow> None
           | Some f \<Rightarrow> f ctx containerID container))"

definition issueError ::
  "(string \<rightharpoonup> handler) \<Rightarrow> ConsensusContext \<Rightarrow> ID \<Rightarrow> bytes \<Rightarrow> string \<Rightarrow> error option" where
  "issueError events ctx containerID container i =
     (case events i of
        None \<Rightarrow> None
      | Some h \<Rightarrow>
          (case asIssuer (handlerFunc h) of
             None \<Rightarrow> None
           | Some f \<Rightarrow> f ctx containerID container))"

definition diesOn ::
  "(string \<rightharpoonup> handler) \<Rightarrow> ConsensusContext \<Rightarrow> ID \<Rightarrow> bytes \<Rightarrow> string \<Rightarrow> bool" where
  "diesOn events ctx containerID container i =
     (case events i of
        None \<Rightarrow> False
      | Some h \<Rightarrow> dieOnError h \<and> acceptError events ctx containerID container i \<noteq> None)"

text \<open>The handlers of a chain; a chain that has none has the empty map.\<close>

definition handlersOf :: "EventDispatcher \<Rightarrow> ID \<Rightarrow> (string \<rightharpoonup> handler)" where
  "handlersOf ed chainID = (case chainHandlers ed chainID of None \<Rightarrow> Map.empty | Some events \<Rightarrow> events)"

text \<open>
  Example handlers and dispatchers: a handler whose \<open>Accept\<close> succeeds and that
  implements neither \<open>Rejector\<close> nor \<open>Issuer\<close>; a handler all of whose methods fail;
  and dispatchers on which two handlers are registered for chain 7.
\<close>

definition okAcceptor :: handlerFunc where
  "okAcceptor = \<lparr>asAcceptor = Some (\<lambda>ctx containerID container. None), asRejector = None, asIssuer = None\<rparr>"

definition failingAcceptor :: handlerFunc where
  "failingAcceptor =
     \<lparr>asAcceptor = Some (\<lambda>ctx containerID container. Some (HandlerErr ''boom'')),
      asRejector = Some (\<lambda>ctx containerID container. Some (HandlerErr ''boom'')),
      asIssuer = Some (\<lambda>ctx containerID container. Some (HandlerErr ''boom''))\<rparr>"

definition registeredAB :: EventDispatcher where
  "registeredAB =
     fst (RegisterChain (fst (RegisterChain New 7 ''a'' okAcceptor False)) 7 ''b'' okAcceptor False)"

definition registeredBA :: EventDispatcher where
  "registeredBA =
     fst (RegisterChain (fst (RegisterChain New 7 ''b'' okAcceptor False)) 7 ''a'' okAcceptor False)"

definition registeredDie :: EventDispatcher where
  "registeredDie =
     fst (RegisterChain (fst (RegisterChain New 7 ''a'' failingAcceptor True)) 7 ''b'' okAcceptor False)"

definition registeredLog :: EventDispatcher where
  "registeredLog =
     fst (RegisterChain (fst (RegisterChain New 7 ''a'' failingAcceptor False)) 7 ''b'' okAcceptor True)"

subsection \<open>Properties of the event dispatcher\<close>

lemma called_simps [simp]:
  "invoked (called i b d) = i # invoked d"
  "logged (called i b d) = (if b then i # logged d else logged d)"
  "returned (called i b d) = returned d"
  by (simp_all add: called_def)

lemma rejectLoop_invoked:
  "invoked (rejectLoop events ctx cid c ks) = filter (isRejector events) ks"
  by (induction ks) (auto simp: isRejector_def split: option.splits)

lemma rejectLoop_logged:
  "logged (rejectLoop events ctx cid c ks) = filter (\<lambda>i. rejectError events ctx cid c i \<noteq> None) ks"
  by (induction ks) (auto simp: rejectError_def split: option.splits)

lemma rejectLoop_returned:
  "returned (rejectLoop events ctx cid c ks) = None"
  by (induction ks) (auto split: option.splits)

lemma issueLoop_invoked:
  "invoked (issueLoop events ctx cid c ks) = filter (isIssuer events) ks"
  by (induction ks) (auto simp: isIssuer_def split: option.splits)

lemma issueLoop_logged:
  "logged (issueLoop events ctx cid c ks) = filter (\<lambda>i. issueError events ctx cid c i \<noteq> None) ks"
  by (induction ks) (auto simp: issueError_def split: option.splits)

lemma issueLoop_returned:
  "returned (issueLoop events ctx cid c ks) = None"
  by (induction ks) (auto split: option.splits)

lemma acceptLoop_returned:
  "(returned (acceptLoop events ctx cid c ks) \<noteq> None) = (\<exists>i \<in> set ks. diesOn events ctx cid c i)"
  by (induction ks) (auto simp: diesOn_def acceptError_def split: option.splits)

lemma acceptLoop_invoked:
  "invoked (acceptLoop events ctx cid c ks) =
     takeWhile (\<lambda>i. \<not> diesOn events ctx cid c i) (filter (isAcceptor events) ks) @
     take 1 (dropWhile (\<lambda>i. \<not> diesOn events ctx cid c i) (filter (isAcceptor events) ks))"
  by (induction ks) (auto simp: diesOn_def acceptError_def isAcceptor_def split: option.splits)

lemma acceptLoop_logged:
  "logged (acceptLoop events ctx cid c ks) =
     filter (\<lambda>i. acceptError events ctx cid c i \<noteq> None) (invoked (acceptLoop events ctx cid c ks))"
  by (induction ks) (auto simp: acceptError_def split: option.splits)

lemma acceptLoop_all:
  "returned (acceptLoop events ctx cid c ks) = None \<Longrightarrow>
   invoked (acceptLoop events ctx cid c ks) = filter (isAcceptor events) ks"
  by (induction ks) (auto simp: isAcceptor_def split: option.splits if_splits)

lemma RegisterChain_commute:
  "i \<noteq> j \<Longrightarrow>
   fst (RegisterChain (fst (RegisterChain ed ch i hf d)) ch j hf' d') =
   fst (RegisterChain (fst (RegisterChain ed ch j hf' d')) ch i hf d)"
  by (auto simp: RegisterChain_def Let_def fun_upd_twist split: option.splits)

lemma RegisterChain_stores:
  "snd (RegisterChain ed ch i hf d) = None \<Longrightarrow>
   handlersOf (fst (RegisterChain ed ch i hf d)) ch =
     (handlersOf ed ch)(i \<mapsto> \<lparr>handlerFunc = hf, dieOnError = d\<rparr>)"
  by (auto simp: RegisterChain_def handlersOf_def Let_def split: option.splits if_splits)

lemma RegisterChain_refuses:
  "(snd (RegisterChain ed ch i hf d) = None) = (i \<notin> dom (handlersOf ed ch))"
  by (auto simp: RegisterChain_def handlersOf_def Let_def split: option.splits if_splits)

lemma handlersOf_registeredAB:
  "handlersOf registeredAB 7 =
     [''a'' \<mapsto> \<lparr>handlerFunc = okAcceptor, dieOnError = False\<rparr>,
      ''b'' \<mapsto> \<lparr>handlerFunc = okAcceptor, dieOnError = False\<rparr>]"
  by (simp add: registeredAB_def RegisterChain_def New_def handlersOf_def)

lemma handlersOf_registeredDie:
  "handlersOf registeredDie 7 =
     [''a'' \<mapsto> \<lparr>handlerFunc = failingAcceptor, dieOnError = True\<rparr>,
      ''b'' \<mapsto> \<lparr>handlerFunc = okAcceptor, dieOnError = False\<rparr>]"
  by (simp add: registeredDie_def RegisterChain_def New_def handlersOf_def)

lemma Accept_handlersOf:
  "Accept ed ctx cid c ks =
     (if chainHandlers ed (ChainID ctx) = None then \<lparr>invoked = [], logged = [], returned = None\<rparr>
      else acceptLoop (handlersOf ed (ChainID ctx)) ctx cid c ks)"
  by (simp add: Accept_def handlersOf_def split: option.splits)

lemma chain_registeredAB: "chainHandlers registeredAB 7 \<noteq> None"
  by (simp add: registeredAB_def RegisterChain_def New_def)

lemma chain_registeredDie: "chainHandlers registeredDie 7 \<noteq> None"
  by (simp add: registeredDie_def RegisterChain_def New_def)

text \<open>
  C3 (as stated in the spec, refuted): the handlers are not invoked in the order of their
  registration. Registering \<open>a\<close> then \<open>b\<close> leaves the dispatcher in the same state as
  registering \<open>b\<close> then \<open>a\<close>, and when \<open>range\<close> visits the map in the order \<open>b\<close>, \<open>a\<close>,
  \<open>Accept\<close> calls \<open>b\<close> before \<open>a\<close>. Nor are all matching handlers invoked: when the
  die-on-error handler \<open>a\<close> fails first, \<open>Accept\<close> returns and never calls \<open>b\<close>.
\<close>

theorem C3_registration_order_counterexample:
  "registeredAB = registeredBA \<and>
   rangeOrder (handlersOf registeredAB 7) [''b'', ''a''] \<and>
   invoked (Accept registeredAB \<lparr>ChainID = 7\<rparr> 1 [] [''b'', ''a'']) = [''b'', ''a''] \<and>
   invoked (Accept registeredAB \<lparr>ChainID = 7\<rparr> 1 [] [''b'', ''a'']) \<noteq> [''a'', ''b''] \<and>
   rangeOrder (handlersOf registeredDie 7) [''a'', ''b''] \<and>
   isAcceptor (handlersOf registeredDie 7) ''b'' \<and>
   invoked (Accept registeredDie \<lparr>ChainID = 7\<rparr> 1 [] [''a'', ''b'']) = [''a'']"
proof -
  have "registeredAB = registeredBA"
    unfolding registeredAB_def registeredBA_def by (rule RegisterChain_commute) simp
  moreover have "rangeOrder (handlersOf registeredAB 7) [''b'', ''a'']"
    by (auto simp: handlersOf_registeredAB rangeOrder_def)
  moreover have "invoked (Accept registeredAB \<lparr>ChainID = 7\<rparr> 1 [] [''b'', ''a'']) = [''b'', ''a'']"
    by (simp add: Accept_handlersOf chain_registeredAB handlersOf_registeredAB okAcceptor_def)
  moreover have "rangeOrder (handlersOf registeredDie 7) [''a'', ''b'']"
    by (auto simp: handlersOf_registeredDie rangeOrder_def)
  moreover have "isAcceptor (handlersOf registeredDie 7) ''b''"
    by (simp add: handlersOf_registeredDie isAcceptor_def okAcceptor_def)
  moreover have "invoked (Accept registeredDie \<lparr>ChainID = 7\<rparr> 1 [] [''a'', ''b'']) = [''a'']"
    by (simp add: Accept_handlersOf chain_registeredDie handlersOf_registeredDie failingAcceptor_def)
  ultimately show ?thesis by simp
qed

lemma rangeOrder_filter:
  "rangeOrder events ks \<Longrightarrow> (\<And>i. P i \<Longrightarrow> i \<in> dom events) \<Longrightarrow>
   set (filter P ks) = {i. P i} \<and> distinct (filter P ks)"
  by (auto simp: rangeOrder_def)

lemma Reject_handlersOf:
  "Reject ed ctx cid c ks =
     (if chainHandlers ed (ChainID ctx) = None then \<lparr>invoked = [], logged = [], returned = None\<rparr>
      else rejectLoop (handlersOf ed (ChainID ctx)) ctx cid c ks)"
  by (simp add: Reject_def handlersOf_def split: option.splits)

lemma Issue_handlersOf:
  "Issue ed ctx cid c ks =
     (if chainHandlers ed (ChainID ctx) = None then \<lparr>invoked = [], logged = [], returned = None\<rparr>
      else issueLoop (handlersOf ed (ChainID ctx)) ctx cid c ks)"
  by (simp add: Issue_def handlersOf_def split: option.splits)

lemma rangeOrder_no_chain:
  "chainHandlers ed ch = None \<Longrightarrow> rangeOrder (handlersOf ed ch) ks \<Longrightarrow> ks = []"
  by (simp add: handlersOf_def rangeOrder_def)

lemma Reject_loop:
  "rangeOrder (handlersOf ed (ChainID ctx)) ks \<Longrightarrow>
   Reject ed ctx cid c ks = rejectLoop (handlersOf ed (ChainID ctx)) ctx cid c ks"
  by (auto simp: Reject_handlersOf dest: rangeOrder_no_chain)

lemma Issue_loop:
  "rangeOrder (handlersOf ed (ChainID ctx)) ks \<Longrightarrow>
   Issue ed ctx cid c ks = issueLoop (handlersOf ed (ChainID ctx)) ctx cid c ks"
  by (auto simp: Issue_handlersOf dest: rangeOrder_no_chain)

lemma Accept_loop:
  "rangeOrder (handlersOf ed (ChainID ctx)) ks \<Longrightarrow>
   Accept ed ctx cid c ks = acceptLoop (handlersOf ed (ChainID ctx)) ctx cid c ks"
  by (auto simp: Accept_handlersOf dest: rangeOrder_no_chain)

text \<open>
  C3 (amended): for every chain and every event, the dispatcher calls the matching
  method of the chain's handlers in the order in which \<open>range\<close> visits the chain's map.
  \<open>Reject\<close> and \<open>Issue\<close> call every handler that implements the interface exactly once.
  \<open>Accept\<close> calls the handlers that implement \<open>Acceptor\<close> up to and including the first
  die-on-error handler whose \<open>Accept\<close> fails; when it returns nil it has called every one
  of them exactly once. The state of the dispatcher does not depend on the order in
  which two handlers were registered.
\<close>

theorem C3_dispatch_in_range_order:
  assumes ro: "rangeOrder (handlersOf ed (ChainID ctx)) ks"
  shows
    "invoked (Reject ed ctx cid c ks) = filter (isRejector (handlersOf ed (ChainID ctx))) ks \<and>
     set (invoked (Reject ed ctx cid c ks)) = {i. isRejector (handlersOf ed (ChainID ctx)) i} \<and>
     distinct (invoked (Reject ed ctx cid c ks)) \<and>
     invoked (Issue ed ctx cid c ks) = filter (isIssuer (handlersOf ed (ChainID ctx))) ks \<and>
     set (invoked (Issue ed ctx cid c ks)) = {i. isIssuer (handlersOf ed (ChainID ctx)) i} \<and>
     distinct (invoked (Issue ed ctx cid c ks)) \<and>
     invoked (Accept ed ctx cid c ks) =
       takeWhile (\<lambda>i. \<not> diesOn (handlersOf ed (ChainID ctx)) ctx cid c i)
         (filter (isAcceptor (handlersOf ed (ChainID ctx))) ks) @
       take 1 (dropWhile (\<lambda>i. \<not> diesOn (handlersOf ed (ChainID ctx)) ctx cid c i)
         (filter (isAcceptor (handlersOf ed (ChainID ctx))) ks)) \<and>
     (returned (Accept ed ctx cid c ks) = None \<longrightarrow>
        invoked (Accept ed ctx cid c ks) = filter (isAcceptor (handlersOf ed (ChainID ctx))) ks \<and>
        set (invoked (Accept ed ctx cid c ks)) = {i. isAcceptor (handlersOf ed (ChainID ctx)) i} \<and>
        distinct (invoked (Accept ed ctx cid c ks))) \<and>
     (i \<noteq> j \<longrightarrow>
        fst (RegisterChain (fst (RegisterChain ed0 ch i hf d)) ch j hf' d') =
        fst (RegisterChain (fst (RegisterChain ed0 ch j hf' d')) ch i hf d))"
proof -
  let ?ev = "handlersOf ed (ChainID ctx)"
  have rej: "set (filter (isRejector ?ev) ks) = {i. isRejector ?ev i} \<and> distinct (filter (isRejector ?ev) ks)"
    using ro by (rule rangeOrder_filter) (auto simp: isRejector_def split: option.splits)
  have iss: "set (filter (isIssuer ?ev) ks) = {i. isIssuer ?ev i} \<and> distinct (filter (isIssuer ?ev) ks)"
    using ro by (rule rangeOrder_filter) (auto simp: isIssuer_def split: option.splits)
  have acc: "set (filter (isAcceptor ?ev) ks) = {i. isAcceptor ?ev i} \<and> distinct (filter (isAcceptor ?ev) ks)"
    using ro by (rule rangeOrder_filter) (auto simp: isAcceptor_def split: option.splits)
  have r: "invoked (Reject ed ctx cid c ks) = filter (isRejector ?ev) ks"
    by (simp add: Reject_loop [OF ro] rejectLoop_invoked)
  have s: "invoked (Issue ed ctx cid c ks) = filter (isIssuer ?ev) ks"
    by (simp add: Issue_loop [OF ro] issueLoop_invoked)
  have a: "invoked (Accept ed ctx cid c ks) =
       takeWhile (\<lambda>i. \<not> diesOn ?ev ctx cid c i) (filter (isAcceptor ?ev) ks) @
       take 1 (dropWhile (\<lambda>i. \<not> diesOn ?ev ctx cid c i) (filter (isAcceptor ?ev) ks))"
    by (simp only: Accept_loop [OF ro] acceptLoop_invoked)
  have a': "returned (Accept ed ctx cid c ks) = None \<longrightarrow>
        invoked (Accept ed ctx cid c ks) = filter (isAcceptor ?ev) ks"
    by (simp add: Accept_loop [OF ro] acceptLoop_all)
  have comm: "i \<noteq> j \<longrightarrow>
        fst (RegisterChain (fst (RegisterChain ed0 ch i hf d)) ch j hf' d') =
        fst (RegisterChain (fst (RegisterChain ed0 ch j hf' d')) ch i hf d)"
    by (simp add: RegisterChain_commute)
  show ?thesis
    using rej iss acc r s a a' comm by presburger
qed

lemma handlersOf_registeredLog:
  "handlersOf registeredLog 7 =
     [''a'' \<mapsto> \<lparr>handlerFunc = failingAcceptor, dieOnError = False\<rparr>,
      ''b'' \<mapsto> \<lparr>handlerFunc = okAcceptor, dieOnError = True\<rparr>]"
  by (simp add: registeredLog_def RegisterChain_def New_def handlersOf_def)

text \<open>
  The witness: two acceptors visited in the order \<open>b\<close>, \<open>a\<close>, and a dispatcher whose
  handler \<open>a\<close> implements all three interfaces.
\<close>

theorem C3_dispatch_in_range_order_witness:
  "rangeOrder (handlersOf registeredAB 7) [''b'', ''a''] \<and>
   returned (Accept registeredAB \<lparr>ChainID = 7\<rparr> 1 [] [''b'', ''a'']) = None \<and>
   invoked (Accept registeredAB \<lparr>ChainID = 7\<rparr> 1 [] [''b'', ''a'']) = [''b'', ''a''] \<and>
   set (invoked (Accept registeredAB \<lparr>ChainID = 7\<rparr> 1 [] [''b'', ''a''])) =
     {i. isAcceptor (handlersOf registeredAB 7) i} \<and>
   rangeOrder (handlersOf registeredDie 7) [''b'', ''a''] \<and>
   invoked (Accept registeredDie \<lparr>ChainID = 7\<rparr> 1 [] [''b'', ''a'']) = [''b'', ''a''] \<and>
   invoked (Reject registeredDie \<lparr>ChainID = 7\<rparr> 1 [] [''b'', ''a'']) = [''a''] \<and>
   invoked (Issue registeredDie \<lparr>ChainID = 7\<rparr> 1 [] [''b'', ''a'']) = [''a''] \<and>
   ''a'' \<noteq> ''b'' \<and>
   fst (RegisterChain (fst (RegisterChain New 7 ''a'' okAcceptor False)) 7 ''b'' okAcceptor False) =
   fst (RegisterChain (fst (RegisterChain New 7 ''b'' okAcceptor False)) 7 ''a'' okAcceptor False)"
proof -
  have ro1: "rangeOrder (handlersOf registeredAB (ChainID \<lparr>ChainID = 7\<rparr>)) [''b'', ''a'']"
    by (auto simp: handlersOf_registeredAB rangeOrder_def)
  have ro2: "rangeOrder (handlersOf registeredDie (ChainID \<lparr>ChainID = 7\<rparr>)) [''b'', ''a'']"
    by (auto simp: handlersOf_registeredDie rangeOrder_def)
  have none: "returned (Accept registeredAB \<lparr>ChainID = 7\<rparr> 1 [] [''b'', ''a'']) = None"
    by (simp add: Accept_handlersOf chain_registeredAB handlersOf_registeredAB okAcceptor_def)
  have ne: "''a'' \<noteq> ''b''" by simp
  note t1 = C3_dispatch_in_range_order [OF ro1, of 1 "[]" "''a''" "''b''" New 7 okAcceptor False
      okAcceptor False, unfolded ConsensusContext.select_convs]
  note t2 = C3_dispatch_in_range_order [OF ro2, of 1 "[]" "''a''" "''b''" New 7 okAcceptor False
      okAcceptor False, unfolded ConsensusContext.select_convs]
  have f1: "filter (isAcceptor (handlersOf registeredAB 7)) [''b'', ''a''] = [''b'', ''a'']"
    by (simp add: handlersOf_registeredAB isAcceptor_def okAcceptor_def)
  have a1: "invoked (Accept registeredAB \<lparr>ChainID = 7\<rparr> 1 [] [''b'', ''a'']) = [''b'', ''a''] \<and>
      set (invoked (Accept registeredAB \<lparr>ChainID = 7\<rparr> 1 [] [''b'', ''a''])) =
        {i. isAcceptor (handlersOf registeredAB 7) i}"
  proof -
    from t1 none have "invoked (Accept registeredAB \<lparr>ChainID = 7\<rparr> 1 [] [''b'', ''a'']) =
        filter (isAcceptor (handlersOf registeredAB 7)) [''b'', ''a''] \<and>
      set (invoked (Accept registeredAB \<lparr>ChainID = 7\<rparr> 1 [] [''b'', ''a''])) =
        {i. isAcceptor (handlersOf registeredAB 7) i}"
      by blast
    then show ?thesis unfolding f1 .
  qed
  have a2: "invoked (Accept registeredDie \<lparr>ChainID = 7\<rparr> 1 [] [''b'', ''a'']) = [''b'', ''a'']"
  proof -
    from t2 have "invoked (Accept registeredDie \<lparr>ChainID = 7\<rparr> 1 [] [''b'', ''a'']) =
       takeWhile (\<lambda>i. \<not> diesOn (handlersOf registeredDie 7) \<lparr>ChainID = 7\<rparr> 1 [] i)
         (filter (isAcceptor (handlersOf registeredDie 7)) [''b'', ''a'']) @
       take 1 (dropWhile (\<lambda>i. \<not> diesOn (handlersOf registeredDie 7) \<lparr>ChainID = 7\<rparr> 1 [] i)
         (filter (isAcceptor (handlersOf registeredDie 7)) [''b'', ''a'']))"
      by blast
    then show ?thesis
      by (simp add: handlersOf_registeredDie isAcceptor_def diesOn_def acceptError_def
          okAcceptor_def failingAcceptor_def)
  qed
  have r2: "invoked (Reject registeredDie \<lparr>ChainID = 7\<rparr> 1 [] [''b'', ''a'']) = [''a'']"
  proof -
    from t2 have "invoked (Reject registeredDie \<lparr>ChainID = 7\<rparr> 1 [] [''b'', ''a'']) =
        filter (isRejector (handlersOf registeredDie 7)) [''b'', ''a'']"
      by blast
    then show ?thesis
      by (simp add: handlersOf_registeredDie isRejector_def okAcceptor_def failingAcceptor_def)
  qed
  have i2: "invoked (Issue registeredDie \<lparr>ChainID = 7\<rparr> 1 [] [''b'', ''a'']) = [''a'']"
  proof -
    from t2 have "invoked (Issue registeredDie \<lparr>ChainID = 7\<rparr> 1 [] [''b'', ''a'']) =
        filter (isIssuer (handlersOf registeredDie 7)) [''b'', ''a'']"
      by blast
    then show ?thesis
      by (simp add: handlersOf_registeredDie isIssuer_def okAcceptor_def failingAcceptor_def)
  qed
  have comm: "fst (RegisterChain (fst (RegisterChain New 7 ''a'' okAcceptor False)) 7 ''b'' okAcceptor False) =
   fst (RegisterChain (fst (RegisterChain New 7 ''b'' okAcceptor False)) 7 ''a'' okAcceptor False)"
    using t1 ne by blast
  from ro1 ro2 none a1 a2 r2 i2 ne comm show ?thesis
    unfolding ConsensusContext.select_convs by blast
qed

lemma diesOn_iff:
  "diesOn events ctx cid c i =
     (\<exists>h f e. events i = Some h \<and> dieOnError h \<and>
        asAcceptor (handlerFunc h) = Some f \<and> f ctx cid c = Some e)"
proof (cases "events i")
  case None
  then show ?thesis by (simp add: diesOn_def)
next
  case (Some h)
  then show ?thesis
    by (cases "asAcceptor (handlerFunc h)") (auto simp: diesOn_def acceptError_def)
qed

text \<open>
  C4: \<open>Accept\<close> returns a non-nil error if and only if some handler of the chain that was
  registered with \<open>dieOnError\<close> implements \<open>Acceptor\<close> and its \<open>Accept\<close> returns an error.
  The errors of the handlers it called are logged; when no die-on-error handler fails,
  every acceptor is called. \<open>Reject\<close> and \<open>Issue\<close> call every handler that implements
  the interface, log the errors, and always return nil.
\<close>

theorem C4_Accept_error_iff_dieOnError:
  assumes ro: "rangeOrder (handlersOf ed (ChainID ctx)) ks"
  shows
    "(returned (Accept ed ctx cid c ks) \<noteq> None) =
       (\<exists>i h f e. handlersOf ed (ChainID ctx) i = Some h \<and> dieOnError h \<and>
          asAcceptor (handlerFunc h) = Some f \<and> f ctx cid c = Some e) \<and>
     logged (Accept ed ctx cid c ks) =
       filter (\<lambda>i. acceptError (handlersOf ed (ChainID ctx)) ctx cid c i \<noteq> None)
         (invoked (Accept ed ctx cid c ks)) \<and>
     (returned (Accept ed ctx cid c ks) = None \<longrightarrow>
        invoked (Accept ed ctx cid c ks) = filter (isAcceptor (handlersOf ed (ChainID ctx))) ks) \<and>
     returned (Reject ed ctx cid c ks) = None \<and>
     invoked (Reject ed ctx cid c ks) = filter (isRejector (handlersOf ed (ChainID ctx))) ks \<and>
     logged (Reject ed ctx cid c ks) =
       filter (\<lambda>i. rejectError (handlersOf ed (ChainID ctx)) ctx cid c i \<noteq> None) ks \<and>
     returned (Issue ed ctx cid c ks) = None \<and>
     invoked (Issue ed ctx cid c ks) = filter (isIssuer (handlersOf ed (ChainID ctx))) ks \<and>
     logged (Issue ed ctx cid c ks) =
       filter (\<lambda>i. issueError (handlersOf ed (ChainID ctx)) ctx cid c i \<noteq> None) ks"
proof -
  let ?ev = "handlersOf ed (ChainID ctx)"
  have dom: "set ks = dom ?ev"
    using ro by (simp add: rangeOrder_def)
  have "(returned (Accept ed ctx cid c ks) \<noteq> None) = (\<exists>i \<in> set ks. diesOn ?ev ctx cid c i)"
    by (simp only: Accept_loop [OF ro] acceptLoop_returned)
  also have "\<dots> = (\<exists>i. diesOn ?ev ctx cid c i)"
    using dom by (auto simp: diesOn_def split: option.splits)
  also have "\<dots> = (\<exists>i h f e. ?ev i = Some h \<and> dieOnError h \<and>
          asAcceptor (handlerFunc h) = Some f \<and> f ctx cid c = Some e)"
    by (simp only: diesOn_iff)
  finally have ret: "(returned (Accept ed ctx cid c ks) \<noteq> None) =
       (\<exists>i h f e. ?ev i = Some h \<and> dieOnError h \<and>
          asAcceptor (handlerFunc h) = Some f \<and> f ctx cid c = Some e)" .
  have lg: "logged (Accept ed ctx cid c ks) =
       filter (\<lambda>i. acceptError ?ev ctx cid c i \<noteq> None) (invoked (Accept ed ctx cid c ks))"
    by (simp only: Accept_loop [OF ro] acceptLoop_logged)
  have al: "returned (Accept ed ctx cid c ks) = None \<longrightarrow>
        invoked (Accept ed ctx cid c ks) = filter (isAcceptor ?ev) ks"
    by (simp add: Accept_loop [OF ro] acceptLoop_all)
  have rj: "returned (Reject ed ctx cid c ks) = None \<and>
     invoked (Reject ed ctx cid c ks) = filter (isRejector ?ev) ks \<and>
     logged (Reject ed ctx cid c ks) = filter (\<lambda>i. rejectError ?ev ctx cid c i \<noteq> None) ks"
    by (simp add: Reject_loop [OF ro] rejectLoop_returned rejectLoop_invoked rejectLoop_logged)
  have isu: "returned (Issue ed ctx cid c ks) = None \<and>
     invoked (Issue ed ctx cid c ks) = filter (isIssuer ?ev) ks \<and>
     logged (Issue ed ctx cid c ks) = filter (\<lambda>i. issueError ?ev ctx cid c i \<noteq> None) ks"
    by (simp add: Issue_loop [OF ro] issueLoop_returned issueLoop_invoked issueLoop_logged)
  from ret lg al rj isu show ?thesis by blast
qed

text \<open>
  The witness: a die-on-error handler that fails (\<open>Accept\<close> returns its error), and a
  failing handler registered without \<open>dieOnError\<close> (its error is logged, the next
  handler is called and \<open>Accept\<close> returns nil).
\<close>

theorem C4_Accept_error_iff_dieOnError_witness:
  "rangeOrder (handlersOf registeredDie 7) [''b'', ''a''] \<and>
   returned (Accept registeredDie \<lparr>ChainID = 7\<rparr> 1 [] [''b'', ''a'']) \<noteq> None \<and>
   logged (Accept registeredDie \<lparr>ChainID = 7\<rparr> 1 [] [''b'', ''a'']) = [''a''] \<and>
   rangeOrder (handlersOf registeredLog 7) [''b'', ''a''] \<and>
   returned (Accept registeredLog \<lparr>ChainID = 7\<rparr> 1 [] [''b'', ''a'']) = None \<and>
   invoked (Accept registeredLog \<lparr>ChainID = 7\<rparr> 1 [] [''b'', ''a'']) = [''b'', ''a''] \<and>
   logged (Accept registeredLog \<lparr>ChainID = 7\<rparr> 1 [] [''b'', ''a'']) = [''a''] \<and>
   returned (Reject registeredDie \<lparr>ChainID = 7\<rparr> 1 [] [''b'', ''a'']) = None \<and>
   logged (Reject registeredDie \<lparr>ChainID = 7\<rparr> 1 [] [''b'', ''a'']) = [''a''] \<and>
   returned (Issue registeredDie \<lparr>ChainID = 7\<rparr> 1 [] [''b'', ''a'']) = None \<and>
   logged (Issue registeredDie \<lparr>ChainID = 7\<rparr> 1 [] [''b'', ''a'']) = [''a'']"
proof -
  have ro1: "rangeOrder (handlersOf registeredDie (ChainID \<lparr>ChainID = 7\<rparr>)) [''b'', ''a'']"
    by (auto simp: handlersOf_registeredDie rangeOrder_def)
  have ro2: "rangeOrder (handlersOf registeredLog (ChainID \<lparr>ChainID = 7\<rparr>)) [''b'', ''a'']"
    by (auto simp: handlersOf_registeredLog rangeOrder_def)
  note t1 = C4_Accept_error_iff_dieOnError [OF ro1, of 1 "[]", unfolded ConsensusContext.select_convs]
  note t2 = C4_Accept_error_iff_dieOnError [OF ro2, of 1 "[]", unfolded ConsensusContext.select_convs]
  have die: "\<exists>i h f e. handlersOf registeredDie 7 i = Some h \<and> dieOnError h \<and>
          asAcceptor (handlerFunc h) = Some f \<and> f \<lparr>ChainID = 7\<rparr> 1 [] = Some e"
    by (rule exI [of _ "''a''"]) (simp add: handlersOf_registeredDie failingAcceptor_def)
  have nodie: "\<not> (\<exists>i h f e. handlersOf registeredLog 7 i = Some h \<and> dieOnError h \<and>
          asAcceptor (handlerFunc h) = Some f \<and> f \<lparr>ChainID = 7\<rparr> 1 [] = Some e)"
    by (auto simp: handlersOf_registeredLog okAcceptor_def split: if_splits)
  have r1: "returned (Accept registeredDie \<lparr>ChainID = 7\<rparr> 1 [] [''b'', ''a'']) \<noteq> None"
    using t1 die by blast
  have r2: "returned (Accept registeredLog \<lparr>ChainID = 7\<rparr> 1 [] [''b'', ''a'']) = None"
    using t2 nodie by blast
  have i2: "invoked (Accept registeredLog \<lparr>ChainID = 7\<rparr> 1 [] [''b'', ''a'']) = [''b'', ''a'']"
  proof -
    from t2 r2 have "invoked (Accept registeredLog \<lparr>ChainID = 7\<rparr> 1 [] [''b'', ''a'']) =
        filter (isAcceptor (handlersOf registeredLog 7)) [''b'', ''a'']"
      by blast
    then show ?thesis
      by (simp add: handlersOf_registeredLog isAcceptor_def okAcceptor_def failingAcceptor_def)
  qed
  have l2: "logged (Accept registeredLog \<lparr>ChainID = 7\<rparr> 1 [] [''b'', ''a'']) = [''a'']"
  proof -
    from t2 have "logged (Accept registeredLog \<lparr>ChainID = 7\<rparr> 1 [] [''b'', ''a'']) =
       filter (\<lambda>i. acceptError (handlersOf registeredLog 7) \<lparr>ChainID = 7\<rparr> 1 [] i \<noteq> None)
         (invoked (Accept registeredLog \<lparr>ChainID = 7\<rparr> 1 [] [''b'', ''a'']))"
      by blast
    then show ?thesis unfolding i2
      by (simp add: handlersOf_registeredLog acceptError_def okAcceptor_def failingAcceptor_def)
  qed
  have l1: "logged (Accept registeredDie \<lparr>ChainID = 7\<rparr> 1 [] [''b'', ''a'']) = [''a'']"
    by (simp add: Accept_handlersOf chain_registeredDie handlersOf_registeredDie
        okAcceptor_def failingAcceptor_def)
  have rj: "returned (Reject registeredDie \<lparr>ChainID = 7\<rparr> 1 [] [''b'', ''a'']) = None \<and>
   logged (Reject registeredDie \<lparr>ChainID = 7\<rparr> 1 [] [''b'', ''a'']) = [''a''] \<and>
   returned (Issue registeredDie \<lparr>ChainID = 7\<rparr> 1 [] [''b'', ''a'']) = None \<and>
   logged (Issue registeredDie \<lparr>ChainID = 7\<rparr> 1 [] [''b'', ''a'']) = [''a'']"
  proof -
    from t1 have "returned (Reject registeredDie \<lparr>ChainID = 7\<rparr> 1 [] [''b'', ''a'']) = None \<and>
      logged (Reject registeredDie \<lparr>ChainID = 7\<rparr> 1 [] [''b'', ''a'']) =
        filter (\<lambda>i. rejectError (handlersOf registeredDie 7) \<lparr>ChainID = 7\<rparr> 1 [] i \<noteq> None)
          [''b'', ''a''] \<and>
      returned (Issue registeredDie \<lparr>ChainID = 7\<rparr> 1 [] [''b'', ''a'']) = None \<and>
      logged (Issue registeredDie \<lparr>ChainID = 7\<rparr> 1 [] [''b'', ''a'']) =
        filter (\<lambda>i. issueError (handlersOf registeredDie 7) \<lparr>ChainID = 7\<rparr> 1 [] i \<noteq> None)
          [''b'', ''a'']"
      by blast
    then show ?thesis
      by (simp add: handlersOf_registeredDie rejectError_def issueError_def
          okAcceptor_def failingAcceptor_def)
  qed
  from ro1 ro2 r1 r2 i2 l1 l2 rj show ?thesis
    unfolding ConsensusContext.select_convs by blast
qed

section \<open>network/throttling: the outbound message throttler\<close>

text \<open>
  Modelled from the spec: \<open>math.Min64\<close> of package \<open>utils/math\<close>, which is not among
  the sources: the least of its arguments, of which there is at least one. The throttler
  uses it to take "as many bytes as we can" without exceeding any of several limits.
\<close>

definition Min64 :: "uint64 \<Rightarrow> uint64 list \<Rightarrow> uint64" where
  "Min64 a bs = foldl min a bs"

text \<open>
  An outbound message: the throttler asks it whether it bypasses throttling, and for
  its bytes, of which it takes the length.
\<close>

record OutboundMessage =
  BypassThrottling :: bool
  Bytes :: bytes

definition msgLen :: "OutboundMessage \<Rightarrow> uint64" where
  "msgLen msg = of_nat (length (Bytes msg))"

text \<open>
  The validator set of the throttler: \<open>GetWeight\<close> gives the weight of a node and whether
  it is a validator, \<open>Weight\<close> the total weight.
\<close>

record validationSet =
  GetWeight :: "ShortID \<rightharpoonup> uint64"
  Weight :: uint64

text \<open>
  The Prometheus metrics of the throttler: two counters, and three gauges. A gauge is
  set to the \<open>uint64\<close> it is given (the conversion to \<open>float64\<close> is left out).
\<close>

record outboundMsgThrottlerMetrics =
  acquireSuccesses :: nat
  acquireFailures :: nat
  gaugeRemainingAtLargeBytes :: uint64
  gaugeRemainingVdrBytes :: uint64
  awaitingRelease :: int

text \<open>
  \<open>outboundMsgThrottler\<close> embeds \<open>commonMsgThrottler\<close>, whose declaration is not among the
  sources; its fields are those that \<open>NewSybilOutboundMsgThrottler\<close> initialises and
  \<open>Acquire\<close> and \<open>Release\<close> use. The mutex \<open>lock\<close> and the logger are left out. The two
  maps are Go maps: reading a key that is absent gives 0.
\<close>

record outboundMsgThrottler =
  validators :: validationSet
  maxVdrBytes :: uint64
  remainingVdrBytes :: uint64
  remainingAtLargeBytes :: uint64
  nodeMaxAtLargeBytes :: uint64
  nodeToVdrBytesUsed :: "ShortID \<rightharpoonup> uint64"
  nodeToAtLargeBytesUsed :: "ShortID \<rightharpoonup> uint64"
  metrics :: outboundMsgThrottlerMetrics

definition mapGet :: "(ShortID \<rightharpoonup> uint64) \<Rightarrow> ShortID \<Rightarrow> uint64" where
  "mapGet m k = (case m k of None \<Rightarrow> 0 | Some v \<Rightarrow> v)"

text \<open>\<open>if m[k] == 0 { delete(m, k) }\<close>\<close>

definition deleteIfZero :: "(ShortID \<rightharpoonup> uint64) \<Rightarrow> ShortID \<Rightarrow> (ShortID \<rightharpoonup> uint64)" where
  "deleteIfZero m k = (if mapGet m k = 0 then m(k := None) else m)"

text \<open>
  \<open>Acquire\<close>. The size of a validator's allocation is computed in floating point,
  \<open>uint64(float64(maxVdrBytes) * float64(weight) / float64(validators.Weight()))\<close>;
  the argument \<open>share\<close> stands for that computation, a function of the three integers.
  The result is the throttler after the call and the boolean that the call returns.
\<close>

definition Acquire ::
  "(uint64 \<Rightarrow> uint64 \<Rightarrow> uint64 \<Rightarrow> uint64) \<Rightarrow> outboundMsgThrottler \<Rightarrow> OutboundMessage \<Rightarrow> ShortID
     \<Rightarrow> outboundMsgThrottler \<times> bool" where
  "Acquire share t msg nodeID =
     (if BypassThrottling msg then (t, True)
      else
        let bytesNeeded = msgLen msg;
            atLargeBytesUsed =
              Min64 bytesNeeded
                [nodeMaxAtLargeBytes t - mapGet (nodeToAtLargeBytesUsed t) nodeID,
                 remainingAtLargeBytes t];
            bytesNeeded1 = bytesNeeded - atLargeBytesUsed;
            vdrAllocationSize =
              (case GetWeight (validators t) nodeID of
                 Some w \<Rightarrow>
                   if w \<noteq> 0 then share (maxVdrBytes t) w (Weight (validators t)) else 0
               | None \<Rightarrow> 0);
            vdrBytesAlreadyUsed = mapGet (nodeToVdrBytesUsed t) nodeID;
            vdrBytesAllowed =
              (if vdrAllocationSize \<le> vdrBytesAlreadyUsed then 0
               else vdrAllocationSize - vdrBytesAlreadyUsed);
            vdrBytesUsed = Min64 (remainingVdrBytes t) [bytesNeeded1, vdrBytesAllowed];
            bytesNeeded2 = bytesNeeded1 - vdrBytesUsed
        in
          if bytesNeeded2 \<noteq> 0
          then (t\<lparr>metrics := (metrics t)\<lparr>acquireFailures := acquireFailures (metrics t) + 1\<rparr>\<rparr>,
                False)
          else
            let t1 =
                  (if 0 < atLargeBytesUsed
                   then t\<lparr>remainingAtLargeBytes := remainingAtLargeBytes t - atLargeBytesUsed,
                          nodeToAtLargeBytesUsed := (nodeToAtLargeBytesUsed t)
                            (nodeID \<mapsto> mapGet (nodeToAtLargeBytesUsed t) nodeID + atLargeBytesUsed),
                          metrics := (metrics t)\<lparr>gaugeRemainingAtLargeBytes :=
                            remainingAtLargeBytes t - atLargeBytesUsed\<rparr>\<rparr>
                   else t);
                t2 =
                  (if 0 < vdrBytesUsed
                   then t1\<lparr>remainingVdrBytes := remainingVdrBytes t1 - vdrBytesUsed,
                           nodeToVdrBytesUsed := (nodeToVdrBytesUsed t1)
                             (nodeID \<mapsto> mapGet (nodeToVdrBytesUsed t1) nodeID + vdrBytesUsed),
                           metrics := (metrics t1)\<lparr>gaugeRemainingVdrBytes :=
                             remainingVdrBytes t1 - vdrBytesUsed\<rparr>\<rparr>
                   else t1)
            in (t2\<lparr>metrics := (metrics t2)
                     \<lparr>acquireSuccesses := acquireSuccesses (metrics t2) + 1,
                      awaitingRelease := awaitingRelease (metrics t2) + 1\<rparr>\<rparr>,
                True))"

text \<open>
  \<open>Release\<close>. The deferred function sets the two gauges and decrements
  \<open>awaitingRelease\<close> when the method returns.
\<close>

definition Release ::
  "outboundMsgThrottler \<Rightarrow> OutboundMessage \<Rightarrow> ShortID \<Rightarrow> outboundMsgThrottler" where
  "Release t msg nodeID =
     (if BypassThrottling msg then t
      else
        let vdrBytesUsed = mapGet (nodeToVdrBytesUsed t) nodeID;
            msgSize = msgLen msg;
            vdrBytesToReturn = Min64 msgSize [vdrBytesUsed];
            t1 = t\<lparr>nodeToVdrBytesUsed := deleteIfZero
                      ((nodeToVdrBytesUsed t)
                         (nodeID \<mapsto> mapGet (nodeToVdrBytesUsed t) nodeID - vdrBytesToReturn))
                      nodeID,
                   remainingVdrBytes := remainingVdrBytes t + vdrBytesToReturn\<rparr>;
            atLargeBytesToReturn = msgSize - vdrBytesToReturn;
            t2 = t1\<lparr>remainingAtLargeBytes := remainingAtLargeBytes t1 + atLargeBytesToReturn,
                    nodeToAtLargeBytesUsed := deleteIfZero
                      ((nodeToAtLargeBytesUsed t1)
                         (nodeID \<mapsto> mapGet (nodeToAtLargeBytesUsed t1) nodeID - atLargeBytesToReturn))
                      nodeID\<rparr>
        in t2\<lparr>metrics := (metrics t2)
                \<lparr>gaugeRemainingAtLargeBytes := remainingAtLargeBytes t2,
                 gaugeRemainingVdrBytes := remainingVdrBytes t2,
                 awaitingRelease := awaitingRelease (metrics t2) - 1\<rparr>\<rparr>)"

text \<open>The configuration and the constructor of the throttler.\<close>

record MsgByteThrottlerConfig =
  VdrAllocSize :: uint64
  AtLargeAllocSize :: uint64
  NodeMaxAtLargeBytes :: uint64

definition NewSybilOutboundMsgThrottler ::
  "validationSet \<Rightarrow> MsgByteThrottlerConfig \<Rightarrow> outboundMsgThrottler" where
  "NewSybilOutboundMsgThrottler vs config =
     \<lparr>validators = vs,
      maxVdrBytes = VdrAllocSize config,
      remainingVdrBytes = VdrAllocSize config,
      remainingAtLargeBytes = AtLargeAllocSize config,
      nodeMaxAtLargeBytes = NodeMaxAtLargeBytes config,
      nodeToVdrBytesUsed = Map.empty,
      nodeToAtLargeBytesUsed = Map.empty,
      metrics = \<lparr>acquireSuccesses = 0, acquireFailures = 0, gaugeRemainingAtLargeBytes = 0,
                 gaugeRemainingVdrBytes = 0, awaitingRelease = 0\<rparr>\<rparr>"

text \<open>
  An example: one validator, node 5, that holds the whole weight and so the whole
  validator allocation of 8 bytes; an at-large allocation of 2 bytes; and messages that
  do not bypass throttling.
\<close>

definition wholeShare :: "uint64 \<Rightarrow> uint64 \<Rightarrow> uint64 \<Rightarrow> uint64" where
  "wholeShare m w tw = m"

definition soleValidator :: validationSet where
  "soleValidator = \<lparr>GetWeight = [5 \<mapsto> 1], Weight = 1\<rparr>"

definition smallThrottler :: outboundMsgThrottler where
  "smallThrottler =
     NewSybilOutboundMsgThrottler soleValidator
       \<lparr>VdrAllocSize = 8, AtLargeAllocSize = 2, NodeMaxAtLargeBytes = 2\<rparr>"

definition msgOfSize :: "nat \<Rightarrow> OutboundMessage" where
  "msgOfSize k = \<lparr>BypassThrottling = False, Bytes = replicate k 0\<rparr>"

subsection \<open>Properties of the throttler\<close>

lemma release_sum_word:
  fixes rv ra a v u L :: "64 word"
  assumes "a + v = L"
  shows "(rv - v + min L (u + v)) + (ra - a + (L - min L (u + v))) = rv + ra"
  using assms by (simp add: algebra_simps)

lemma unat_min: "unat (min (x :: 64 word) y) = min (unat x) (unat y)"
  by (simp add: min_def word_le_nat_alt)

lemma unat_add_small:
  "unat (x :: 64 word) + unat y < 2 ^ 64 \<Longrightarrow> unat (x + y) = unat x + unat y"
  using unat_add_lem [of x y] by simp

lemma release_sum_nat:
  fixes rv ra a v u L :: "64 word"
  assumes av: "a + v = L" and aL: "a \<le> L" and vL: "v \<le> L - a" and ara: "a \<le> ra"
    and vrv: "v \<le> rv" and small: "unat rv + unat u < 2 ^ 64"
  shows "unat (rv - v + min L (u + v)) + unat (ra - a + (L - min L (u + v))) = unat rv + unat ra \<and>
         rv - v \<le> rv - v + min L (u + v) \<and> ra - a \<le> ra - a + (L - min L (u + v))"
proof -
  let ?m = "min L (u + v)"
  have A: "unat a \<le> unat L" using aL by (simp add: word_le_nat_alt)
  have La: "unat (L - a) = unat L - unat a" using aL by (rule unat_sub)
  have V: "unat v \<le> unat L - unat a" using vL La by (simp add: word_le_nat_alt)
  have "unat a + unat v \<le> unat L" using A V by linarith
  moreover have "unat L < 2 ^ 64" using unsigned_less [of L, where ?'a = nat] by simp
  ultimately have "unat (a + v) = unat a + unat v"
    by (intro unat_add_small) linarith
  then have L: "unat L = unat a + unat v" using av by simp
  have Vr: "unat v \<le> unat rv" using vrv by (simp add: word_le_nat_alt)
  have Ar: "unat a \<le> unat ra" using ara by (simp add: word_le_nat_alt)
  have uv: "unat (u + v) = unat u + unat v"
    using Vr small by (intro unat_add_small) linarith
  have m: "unat ?m = min (unat a + unat v) (unat u + unat v)"
    by (simp add: unat_min L uv)
  have m_le: "?m \<le> L" by simp
  have rvv: "unat (rv - v) = unat rv - unat v" using vrv by (rule unat_sub)
  have raa: "unat (ra - a) = unat ra - unat a" using ara by (rule unat_sub)
  have Lm: "unat (L - ?m) = unat L - unat ?m" using m_le by (rule unat_sub)
  have "unat (rv - v) + unat ?m < 2 ^ 64"
    using rvv m Vr small by linarith
  then have "unat (rv - v + ?m) = unat (rv - v) + unat ?m"
    by (rule unat_add_small)
  then have s1: "unat (rv - v + ?m) = unat rv - unat v + unat ?m"
    using rvv by simp
  have "unat ra < 2 ^ 64" using unsigned_less [of ra, where ?'a = nat] by simp
  then have "unat (ra - a) + unat (L - ?m) < 2 ^ 64"
    using raa Lm L m Ar by linarith
  then have "unat (ra - a + (L - ?m)) = unat (ra - a) + unat (L - ?m)"
    by (rule unat_add_small)
  then have s2: "unat (ra - a + (L - ?m)) = unat ra - unat a + (unat L - unat ?m)"
    using raa Lm by simp
  have sum: "unat (rv - v + ?m) + unat (ra - a + (L - ?m)) = unat rv + unat ra"
    using s1 s2 L m Vr Ar by linarith
  have le1: "rv - v \<le> rv - v + ?m"
    using s1 rvv by (simp add: word_le_nat_alt)
  have le2: "ra - a \<le> ra - a + (L - ?m)"
    using s2 raa by (simp add: word_le_nat_alt)
  from sum le1 le2 show ?thesis by blast
qed

lemma Min64_2: "Min64 a [b] = min a b"
  by (simp add: Min64_def)

lemma Min64_3: "Min64 a [b, c] = min (min a b) c"
  by (simp add: Min64_def)

lemma Acquire_fails:
  assumes "\<not> BypassThrottling msg" and "\<not> snd (Acquire share t msg n)"
  shows "fst (Acquire share t msg n) =
           t\<lparr>metrics := (metrics t)\<lparr>acquireFailures := acquireFailures (metrics t) + 1\<rparr>\<rparr>"
  using assms by (simp add: Acquire_def Let_def split: if_splits)

lemma Acquire_succeeds:
  assumes "\<not> BypassThrottling msg" and "snd (Acquire share t msg n)"
  shows "\<exists>a v. a + v = msgLen msg \<and> a \<le> msgLen msg \<and> v \<le> msgLen msg - a \<and>
           a \<le> remainingAtLargeBytes t \<and> v \<le> remainingVdrBytes t \<and>
           remainingAtLargeBytes (fst (Acquire share t msg n)) = remainingAtLargeBytes t - a \<and>
           remainingVdrBytes (fst (Acquire share t msg n)) = remainingVdrBytes t - v \<and>
           mapGet (nodeToAtLargeBytesUsed (fst (Acquire share t msg n))) n =
             mapGet (nodeToAtLargeBytesUsed t) n + a \<and>
           mapGet (nodeToVdrBytesUsed (fst (Acquire share t msg n))) n =
             mapGet (nodeToVdrBytesUsed t) n + v"
proof -
  define a where "a = Min64 (msgLen msg)
                [nodeMaxAtLargeBytes t - mapGet (nodeToAtLargeBytesUsed t) n,
                 remainingAtLargeBytes t]"
  define alloc where "alloc = (case GetWeight (validators t) n of
                 Some w \<Rightarrow>
                   if w \<noteq> 0 then share (maxVdrBytes t) w (Weight (validators t)) else 0
               | None \<Rightarrow> 0)"
  define allowed where "allowed = (if alloc \<le> mapGet (nodeToVdrBytesUsed t) n then 0
               else alloc - mapGet (nodeToVdrBytesUsed t) n)"
  define v where "v = Min64 (remainingVdrBytes t) [msgLen msg - a, allowed]"
  have zero: "msgLen msg - a - v = 0"
    using assms
    by (simp add: Acquire_def Let_def a_def alloc_def allowed_def v_def split: if_splits)
  have st: "fst (Acquire share t msg n) =
     (let t1 =
                  (if 0 < a
                   then t\<lparr>remainingAtLargeBytes := remainingAtLargeBytes t - a,
                          nodeToAtLargeBytesUsed := (nodeToAtLargeBytesUsed t)
                            (n \<mapsto> mapGet (nodeToAtLargeBytesUsed t) n + a),
                          metrics := (metrics t)\<lparr>gaugeRemainingAtLargeBytes :=
                            remainingAtLargeBytes t - a\<rparr>\<rparr>
                   else t);
                t2 =
                  (if 0 < v
                   then t1\<lparr>remainingVdrBytes := remainingVdrBytes t1 - v,
                           nodeToVdrBytesUsed := (nodeToVdrBytesUsed t1)
                             (n \<mapsto> mapGet (nodeToVdrBytesUsed t1) n + v),
                           metrics := (metrics t1)\<lparr>gaugeRemainingVdrBytes :=
                             remainingVdrBytes t1 - v\<rparr>\<rparr>
                   else t1)
            in (t2\<lparr>metrics := (metrics t2)
                     \<lparr>acquireSuccesses := acquireSuccesses (metrics t2) + 1,
                      awaitingRelease := awaitingRelease (metrics t2) + 1\<rparr>\<rparr>))"
    using assms
    by (simp add: Acquire_def Let_def a_def alloc_def allowed_def v_def split: if_splits)
  have a0: "\<not> 0 < a \<Longrightarrow> a = 0" and v0: "\<not> 0 < v \<Longrightarrow> v = 0"
    by (simp_all add: word_gt_0)
  have 1: "a + v = msgLen msg"
  proof -
    from zero have "msgLen msg - a = v" by simp
    then have "msgLen msg = v + a" by (simp only: diff_eq_eq)
    then show ?thesis by (simp add: add.commute)
  qed
  have 2: "a \<le> msgLen msg" by (simp add: a_def Min64_3 min_le_iff_disj)
  have 3: "v \<le> msgLen msg - a" by (simp add: v_def Min64_3 min_le_iff_disj)
  have 4: "a \<le> remainingAtLargeBytes t" by (simp add: a_def Min64_3 min_le_iff_disj)
  have 5: "v \<le> remainingVdrBytes t" by (simp add: v_def Min64_3 min_le_iff_disj)
  have 6: "remainingAtLargeBytes (fst (Acquire share t msg n)) = remainingAtLargeBytes t - a"
    using a0 by (simp add: st Let_def)
  have 7: "remainingVdrBytes (fst (Acquire share t msg n)) = remainingVdrBytes t - v"
    using v0 by (simp add: st Let_def)
  have 8: "mapGet (nodeToAtLargeBytesUsed (fst (Acquire share t msg n))) n =
             mapGet (nodeToAtLargeBytesUsed t) n + a"
    using a0 by (simp add: st Let_def mapGet_def)
  have 9: "mapGet (nodeToVdrBytesUsed (fst (Acquire share t msg n))) n =
             mapGet (nodeToVdrBytesUsed t) n + v"
    using v0 by (simp add: st Let_def mapGet_def)
  from 1 2 3 4 5 6 7 8 9 show ?thesis by blast
qed

lemma Release_remaining:
  assumes "\<not> BypassThrottling msg"
  shows "remainingVdrBytes (Release t msg n) =
           remainingVdrBytes t + min (msgLen msg) (mapGet (nodeToVdrBytesUsed t) n) \<and>
         remainingAtLargeBytes (Release t msg n) =
           remainingAtLargeBytes t + (msgLen msg - min (msgLen msg) (mapGet (nodeToVdrBytesUsed t) n))"
  using assms by (simp add: Release_def Let_def Min64_2)

text \<open>
  C9: for every throttler state and every message that does not bypass throttling, an
  \<open>Acquire\<close> that returns false leaves \<open>remainingVdrBytes\<close>, \<open>remainingAtLargeBytes\<close>,
  \<open>nodeToVdrBytesUsed\<close> and \<open>nodeToAtLargeBytesUsed\<close> unchanged; \<open>Acquire\<close> is a total
  function without a loop, so the call returns. A \<open>Release\<close> of the same message and
  node after an \<open>Acquire\<close> that returned true gives back exactly the message's byte
  count, split between the validator and the at-large allocation, so the sum of the two
  remaining allocations is what it was before the \<open>Acquire\<close>: as 64-bit words always,
  and as numbers, without any wrap-around, when the remaining validator bytes and the
  validator bytes the node already uses do not exceed 64 bits together.
\<close>

theorem C9_Acquire_Release_exact:
  assumes nb: "\<not> BypassThrottling msg"
  shows
    "(\<not> snd (Acquire share t msg n) \<longrightarrow>
        remainingVdrBytes (fst (Acquire share t msg n)) = remainingVdrBytes t \<and>
        remainingAtLargeBytes (fst (Acquire share t msg n)) = remainingAtLargeBytes t \<and>
        nodeToVdrBytesUsed (fst (Acquire share t msg n)) = nodeToVdrBytesUsed t \<and>
        nodeToAtLargeBytesUsed (fst (Acquire share t msg n)) = nodeToAtLargeBytesUsed t) \<and>
     (snd (Acquire share t msg n) \<longrightarrow>
        (remainingVdrBytes (Release (fst (Acquire share t msg n)) msg n)
           - remainingVdrBytes (fst (Acquire share t msg n))) +
        (remainingAtLargeBytes (Release (fst (Acquire share t msg n)) msg n)
           - remainingAtLargeBytes (fst (Acquire share t msg n))) = msgLen msg \<and>
        remainingVdrBytes (Release (fst (Acquire share t msg n)) msg n) +
        remainingAtLargeBytes (Release (fst (Acquire share t msg n)) msg n) =
          remainingVdrBytes t + remainingAtLargeBytes t \<and>
        (unat (remainingVdrBytes t) + unat (mapGet (nodeToVdrBytesUsed t) n) < 2 ^ 64 \<longrightarrow>
           unat (remainingVdrBytes (Release (fst (Acquire share t msg n)) msg n)) +
           unat (remainingAtLargeBytes (Release (fst (Acquire share t msg n)) msg n)) =
             unat (remainingVdrBytes t) + unat (remainingAtLargeBytes t) \<and>
           remainingVdrBytes (fst (Acquire share t msg n))
             \<le> remainingVdrBytes (Release (fst (Acquire share t msg n)) msg n) \<and>
           remainingAtLargeBytes (fst (Acquire share t msg n))
             \<le> remainingAtLargeBytes (Release (fst (Acquire share t msg n)) msg n)))"
proof (intro conjI impI)
  let ?t1 = "fst (Acquire share t msg n)"
  {
    assume "\<not> snd (Acquire share t msg n)"
    note f = Acquire_fails [OF nb this]
    show "remainingVdrBytes ?t1 = remainingVdrBytes t" by (simp add: f)
    show "remainingAtLargeBytes ?t1 = remainingAtLargeBytes t" by (simp add: f)
    show "nodeToVdrBytesUsed ?t1 = nodeToVdrBytesUsed t" by (simp add: f)
    show "nodeToAtLargeBytesUsed ?t1 = nodeToAtLargeBytesUsed t" by (simp add: f)
  }
  assume ok: "snd (Acquire share t msg n)"
  from Acquire_succeeds [OF nb ok] obtain a v where
    av: "a + v = msgLen msg" and aL: "a \<le> msgLen msg" and vL: "v \<le> msgLen msg - a" and
    ara: "a \<le> remainingAtLargeBytes t" and vrv: "v \<le> remainingVdrBytes t" and
    ra1: "remainingAtLargeBytes ?t1 = remainingAtLargeBytes t - a" and
    rv1: "remainingVdrBytes ?t1 = remainingVdrBytes t - v" and
    u1: "mapGet (nodeToVdrBytesUsed ?t1) n = mapGet (nodeToVdrBytesUsed t) n + v"
    by blast
  let ?m = "min (msgLen msg) (mapGet (nodeToVdrBytesUsed t) n + v)"
  from Release_remaining [OF nb, of ?t1 n]
  have rv2: "remainingVdrBytes (Release ?t1 msg n) = remainingVdrBytes t - v + ?m"
    and ra2: "remainingAtLargeBytes (Release ?t1 msg n) =
       remainingAtLargeBytes t - a + (msgLen msg - ?m)"
    by (simp_all add: rv1 ra1 u1)
  show "(remainingVdrBytes (Release ?t1 msg n) - remainingVdrBytes ?t1) +
        (remainingAtLargeBytes (Release ?t1 msg n) - remainingAtLargeBytes ?t1) = msgLen msg"
    by (simp add: rv2 ra2 rv1 ra1)
  show "remainingVdrBytes (Release ?t1 msg n) + remainingAtLargeBytes (Release ?t1 msg n) =
          remainingVdrBytes t + remainingAtLargeBytes t"
    unfolding rv2 ra2 using av by (rule release_sum_word)
  assume small: "unat (remainingVdrBytes t) + unat (mapGet (nodeToVdrBytesUsed t) n) < 2 ^ 64"
  note nat = release_sum_nat [OF av aL vL ara vrv small]
  show "unat (remainingVdrBytes (Release ?t1 msg n)) +
        unat (remainingAtLargeBytes (Release ?t1 msg n)) =
          unat (remainingVdrBytes t) + unat (remainingAtLargeBytes t)"
    unfolding rv2 ra2 using nat by blast
  show "remainingVdrBytes ?t1 \<le> remainingVdrBytes (Release ?t1 msg n)"
    unfolding rv2 rv1 using nat by blast
  show "remainingAtLargeBytes ?t1 \<le> remainingAtLargeBytes (Release ?t1 msg n)"
    unfolding ra2 ra1 using nat by blast
qed

lemma smallThrottler_fails:
  "Acquire wholeShare smallThrottler (msgOfSize 11) 5 =
     (smallThrottler\<lparr>metrics := (metrics smallThrottler)\<lparr>acquireFailures := 1\<rparr>\<rparr>, False)"
  by (simp add: Acquire_def smallThrottler_def NewSybilOutboundMsgThrottler_def soleValidator_def
      msgOfSize_def msgLen_def wholeShare_def Min64_def mapGet_def Let_def)

lemma smallThrottler_succeeds:
  "snd (Acquire wholeShare smallThrottler (msgOfSize 3) 5) \<and>
   remainingAtLargeBytes (fst (Acquire wholeShare smallThrottler (msgOfSize 3) 5)) = 0 \<and>
   remainingVdrBytes (fst (Acquire wholeShare smallThrottler (msgOfSize 3) 5)) = 7"
  by (simp add: Acquire_def smallThrottler_def NewSybilOutboundMsgThrottler_def soleValidator_def
      msgOfSize_def msgLen_def wholeShare_def Min64_def mapGet_def Let_def)

text \<open>
  The witness: a message of 11 bytes is refused (2 at-large and 8 validator bytes are
  all there is) and leaves the state as it was; a message of 3 bytes takes 2 at-large
  bytes and 1 validator byte, and its release brings the sum back to 10.
\<close>

theorem C9_Acquire_Release_exact_witness:
  "\<not> BypassThrottling (msgOfSize 11) \<and>
   \<not> snd (Acquire wholeShare smallThrottler (msgOfSize 11) 5) \<and>
   remainingVdrBytes (fst (Acquire wholeShare smallThrottler (msgOfSize 11) 5)) = 8 \<and>
   remainingAtLargeBytes (fst (Acquire wholeShare smallThrottler (msgOfSize 11) 5)) = 2 \<and>
   nodeToVdrBytesUsed (fst (Acquire wholeShare smallThrottler (msgOfSize 11) 5)) = Map.empty \<and>
   nodeToAtLargeBytesUsed (fst (Acquire wholeShare smallThrottler (msgOfSize 11) 5)) = Map.empty \<and>
   \<not> BypassThrottling (msgOfSize 3) \<and>
   snd (Acquire wholeShare smallThrottler (msgOfSize 3) 5) \<and>
   remainingAtLargeBytes (fst (Acquire wholeShare smallThrottler (msgOfSize 3) 5)) = 0 \<and>
   remainingVdrBytes (fst (Acquire wholeShare smallThrottler (msgOfSize 3) 5)) = 7 \<and>
   unat (remainingVdrBytes smallThrottler) + unat (mapGet (nodeToVdrBytesUsed smallThrottler) 5)
     < 2 ^ 64 \<and>
   remainingVdrBytes (Release (fst (Acquire wholeShare smallThrottler (msgOfSize 3) 5)) (msgOfSize 3) 5) +
   remainingAtLargeBytes (Release (fst (Acquire wholeShare smallThrottler (msgOfSize 3) 5)) (msgOfSize 3) 5)
     = 10 \<and>
   unat (remainingVdrBytes
           (Release (fst (Acquire wholeShare smallThrottler (msgOfSize 3) 5)) (msgOfSize 3) 5)) +
   unat (remainingAtLargeBytes
           (Release (fst (Acquire wholeShare smallThrottler (msgOfSize 3) 5)) (msgOfSize 3) 5))
     = 10"
proof -
  have nb11: "\<not> BypassThrottling (msgOfSize 11)" and nb3: "\<not> BypassThrottling (msgOfSize 3)"
    by (simp_all add: msgOfSize_def)
  have fails: "\<not> snd (Acquire wholeShare smallThrottler (msgOfSize 11) 5)"
    by (simp add: smallThrottler_fails)
  have ok: "snd (Acquire wholeShare smallThrottler (msgOfSize 3) 5)"
    using smallThrottler_succeeds by blast
  have st: "remainingVdrBytes smallThrottler = 8" "remainingAtLargeBytes smallThrottler = 2"
    "nodeToVdrBytesUsed smallThrottler = Map.empty"
    "nodeToAtLargeBytesUsed smallThrottler = Map.empty"
    by (simp_all add: smallThrottler_def NewSybilOutboundMsgThrottler_def)
  have small: "unat (remainingVdrBytes smallThrottler) +
      unat (mapGet (nodeToVdrBytesUsed smallThrottler) 5) < 2 ^ 64"
    by (simp add: st mapGet_def)
  note t11 = C9_Acquire_Release_exact [OF nb11, of wholeShare smallThrottler 5]
  note t3 = C9_Acquire_Release_exact [OF nb3, of wholeShare smallThrottler 5]
  from t11 fails have unchanged:
    "remainingVdrBytes (fst (Acquire wholeShare smallThrottler (msgOfSize 11) 5)) = 8 \<and>
     remainingAtLargeBytes (fst (Acquire wholeShare smallThrottler (msgOfSize 11) 5)) = 2 \<and>
     nodeToVdrBytesUsed (fst (Acquire wholeShare smallThrottler (msgOfSize 11) 5)) = Map.empty \<and>
     nodeToAtLargeBytesUsed (fst (Acquire wholeShare smallThrottler (msgOfSize 11) 5)) = Map.empty"
    unfolding st by blast
  from t3 ok small have restored:
    "remainingVdrBytes (Release (fst (Acquire wholeShare smallThrottler (msgOfSize 3) 5)) (msgOfSize 3) 5) +
     remainingAtLargeBytes (Release (fst (Acquire wholeShare smallThrottler (msgOfSize 3) 5)) (msgOfSize 3) 5)
       = remainingVdrBytes smallThrottler + remainingAtLargeBytes smallThrottler \<and>
     unat (remainingVdrBytes
           (Release (fst (Acquire wholeShare smallThrottler (msgOfSize 3) 5)) (msgOfSize 3) 5)) +
     unat (remainingAtLargeBytes
           (Release (fst (Acquire wholeShare smallThrottler (msgOfSize 3) 5)) (msgOfSize 3) 5))
       = unat (remainingVdrBytes smallThrottler) + unat (remainingAtLargeBytes smallThrottler)"
    by blast
  have ten: "remainingVdrBytes smallThrottler + remainingAtLargeBytes smallThrottler = 10"
    "unat (remainingVdrBytes smallThrottler) + unat (remainingAtLargeBytes smallThrottler) = 10"
    by (simp_all add: st)
  from nb11 nb3 fails smallThrottler_succeeds small unchanged restored [unfolded ten]
  show ?thesis by blast
qed

section \<open>snow/engine/avalanche/state: unique vertices\<close>

subsection \<open>The data\<close>

text \<open>
  An instant (\<open>time.Time\<close>) is an integer, the time elapsed since a fixed epoch.
\<close>

type_synonym Time = int

text \<open>
  A transaction (\<open>snowstorm.Tx\<close>), as far as \<open>Verify\<close> looks at it: its ID, its status
  and its dependencies, which \<open>Dependencies\<close> returns together with an error.
\<close>

datatype Tx = Tx (txID: ID) (txStatus: choicesStatus) (txDependencies: "error + Tx list")

text \<open>
  A stateless vertex (\<open>vertex.StatelessVertex\<close>, an interface whose implementation is
  not among the sources): the result of its own \<open>Verify\<close>, its stop-vertex flag, the IDs
  of its parents, and the bytes of its transactions.
\<close>

record StatelessVertex =
  svVerify :: "error option"
  svStopVertex :: bool
  svParentIDs :: "ID list"
  svTxs :: "bytes list"

text \<open>
  \<open>vertexState\<close>, the state that the handles of a vertex share. The elements of
  \<open>parents\<close> are pointers to unique vertices, that is addresses of handles; the nil slice
  is the empty list. An element of \<open>txs\<close> is a transaction or nil.
\<close>

record vertexState =
  latest :: bool
  vtx :: "StatelessVertex option"
  status :: choicesStatus
  parents :: "nat list"
  txs :: "Tx option list"

text \<open>
  \<open>uniqueVertex\<close>, a handle: the ID of the vertex, a pointer to the shared state (an
  address, or nil) and the clock of the tests. The code compares handles by address
  (\<open>latest == vtx\<close>) and overwrites one handle with another (\<open>*vtx = *latest\<close>), so
  handles live in a heap. The field \<open>serializer\<close> is the same for all handles and is
  left out; the fields \<open>id\<close>, \<open>v\<close> and \<open>time\<close> carry a suffix here.
\<close>

record uniqueVertex =
  id_uv :: ID
  v_uv :: "nat option"
  time_uv :: "Time option"

text \<open>
  What is written to the versioned database, in order: a vertex, the status of a
  vertex, the frontier, and the commit of everything written since the last commit.
\<close>

datatype dbOp =
    PutVertex ID
  | PutStatus ID choicesStatus
  | PutEdge "ID set"
  | CommitOp

text \<open>
  Modelled from the spec: \<open>Serializer\<close> and its \<open>state\<close>, whose declarations are not
  among the sources. The spec (sections 4.F and 4.H) describes a bounded LRU cache of
  canonical handles keyed by vertex ID, and a versioned store that holds the bytes and
  the status of every vertex and the frontier, staged in a buffer and committed in one
  atomic batch. The fields:
  \<^item> \<open>handles\<close> and \<open>states\<close>: the heap, the objects of type \<open>uniqueVertex\<close> and
    \<open>vertexState\<close> by address;
  \<^item> \<open>uniqueVtx\<close>: the cache, the addresses of the cached handles, least recently
    used first, and \<open>cacheSize\<close>, its bound;
  \<^item> \<open>dbStatus\<close> and \<open>dbVertex\<close>: the status and the vertex records of the store, as
    a read sees them;
  \<^item> \<open>edge\<close>: the accepted frontier in memory (\<open>ids.Set\<close>);
  \<^item> \<open>written\<close>: the operations that the store has performed, in order;
  \<^item> \<open>dbFails\<close>: the operations that the store refuses, with the error it returns;
  \<^item> \<open>ParseTx\<close>: the parser of the virtual machine;
  \<^item> \<open>XChainMigrationTime\<close>: the activation time of stop vertices.
\<close>

record Serializer =
  handles :: "uniqueVertex list"
  states :: "vertexState list"
  uniqueVtx :: "nat list"
  cacheSize :: nat
  dbStatus :: "ID \<rightharpoonup> choicesStatus"
  dbVertex :: "(ID \<times> StatelessVertex) list"
  edge :: "ID set"
  written :: "dbOp list"
  dbFails :: "dbOp \<Rightarrow> error option"
  ParseTx :: "bytes \<Rightarrow> error + Tx"
  XChainMigrationTime :: Time

text \<open>
  A method that mutates the serializer returns the serializer after the call, and an
  error or a value. On an error the serializer is the one at the point of the return,
  with the mutations made until then.
\<close>

type_synonym 'a result = "Serializer \<times> (error + 'a)"

subsection \<open>The heap\<close>

definition getHandle :: "Serializer \<Rightarrow> nat \<Rightarrow> uniqueVertex option" where
  "getHandle s p = (if p < length (handles s) then Some (handles s ! p) else None)"

definition getState :: "Serializer \<Rightarrow> nat \<Rightarrow> vertexState option" where
  "getState s a = (if a < length (states s) then Some (states s ! a) else None)"

definition setHandle :: "Serializer \<Rightarrow> nat \<Rightarrow> uniqueVertex \<Rightarrow> Serializer" where
  "setHandle s p h = s\<lparr>handles := (handles s)[p := h]\<rparr>"

definition setState :: "Serializer \<Rightarrow> nat \<Rightarrow> vertexState \<Rightarrow> Serializer" where
  "setState s a st = s\<lparr>states := (states s)[a := st]\<rparr>"

text \<open>\<open>&uniqueVertex{serializer: s, id: id}\<close>: a new handle, with its address.\<close>

definition newHandle :: "Serializer \<Rightarrow> ID \<Rightarrow> Serializer \<times> nat" where
  "newHandle s k =
     (s\<lparr>handles := handles s @ [\<lparr>id_uv = k, v_uv = None, time_uv = None\<rparr>]\<rparr>,
      length (handles s))"

text \<open>\<open>&vertexState{}\<close>: a new state, all of whose fields are zero, with its address.\<close>

definition newState :: "Serializer \<Rightarrow> Serializer \<times> nat" where
  "newState s =
     (s\<lparr>states := states s @
          [\<lparr>latest = False, vtx = None, status = Unknown, parents = [], txs = []\<rparr>]\<rparr>,
      length (states s))"

text \<open>
  \<open>vtx.v\<close> dereferenced: the handle at an address, the address of its state and the
  state; a nil \<open>v\<close> is a panic.
\<close>

definition deref :: "Serializer \<Rightarrow> nat \<Rightarrow> error + (uniqueVertex \<times> nat \<times> vertexState)" where
  "deref s p =
     (case getHandle s p of
        None \<Rightarrow> Inl errInvalidPointer
      | Some h \<Rightarrow>
          (case v_uv h of
             None \<Rightarrow> Inl errNilPointer
           | Some a \<Rightarrow>
               (case getState s a of
                  None \<Rightarrow> Inl errInvalidPointer
                | Some st \<Rightarrow> Inr (h, a, st))))"

subsection \<open>The state: cache and store\<close>

text \<open>
  \<open>Evict\<close> clears the latest bit and the parents of the handle's state, if it has one.
\<close>

definition Evict :: "Serializer \<Rightarrow> nat \<Rightarrow> unit result" where
  "Evict s p =
     (case getHandle s p of
        None \<Rightarrow> (s, Inl errInvalidPointer)
      | Some h \<Rightarrow>
          (case v_uv h of
             None \<Rightarrow> (s, Inr ())
           | Some a \<Rightarrow>
               (case getState s a of
                  None \<Rightarrow> (s, Inl errInvalidPointer)
                | Some st \<Rightarrow> (setState s a (st\<lparr>latest := False, parents := []\<rparr>), Inr ()))))"

text \<open>The cached handle of a vertex ID, if any.\<close>

definition cached :: "Serializer \<Rightarrow> ID \<Rightarrow> nat option" where
  "cached s k =
     find (\<lambda>q. case getHandle s q of None \<Rightarrow> False | Some h \<Rightarrow> id_uv h = k) (uniqueVtx s)"

text \<open>
  Modelled from the spec: \<open>state.UniqueVertex\<close>, the deduplication of the cache, which
  is not among the sources. By section 4.F of the spec, a vertex that is in the cache
  yields the canonical handle (which becomes the most recently used); otherwise the
  given handle is inserted, and when the cache is full the least recently used handle
  is evicted, which calls its \<open>Evict\<close>. The cache holds at least one handle.
\<close>

definition UniqueVertex :: "Serializer \<Rightarrow> nat \<Rightarrow> nat result" where
  "UniqueVertex s p =
     (case getHandle s p of
        None \<Rightarrow> (s, Inl errInvalidPointer)
      | Some h \<Rightarrow>
          (case cached s (id_uv h) of
             Some q \<Rightarrow> (s\<lparr>uniqueVtx := remove1 q (uniqueVtx s) @ [q]\<rparr>, Inr q)
           | None \<Rightarrow>
               (case uniqueVtx s of
                  [] \<Rightarrow> (s\<lparr>uniqueVtx := [p]\<rparr>, Inr p)
                | e # rest \<Rightarrow>
                    if length (uniqueVtx s) < cacheSize s
                    then (s\<lparr>uniqueVtx := uniqueVtx s @ [p]\<rparr>, Inr p)
                    else
                      (case Evict (s\<lparr>uniqueVtx := rest\<rparr>) e of
                         (s1, Inl err) \<Rightarrow> (s1, Inl err)
                       | (s1, Inr _) \<Rightarrow> (s1\<lparr>uniqueVtx := uniqueVtx s1 @ [p]\<rparr>, Inr p)))))"

text \<open>
  Modelled from the spec: \<open>state.Status\<close> and \<open>state.Vertex\<close>, the reads of the store,
  which are not among the sources: the status record of a vertex, \<open>Unknown\<close> when there
  is none, and the vertex record, nil when there is none.
\<close>

definition stateStatus :: "Serializer \<Rightarrow> ID \<Rightarrow> choicesStatus" where
  "stateStatus s k = (case dbStatus s k of None \<Rightarrow> Unknown | Some st \<Rightarrow> st)"

definition stateVertex :: "Serializer \<Rightarrow> ID \<Rightarrow> StatelessVertex option" where
  "stateVertex s k = map_of (dbVertex s) k"

text \<open>
  Modelled from the spec: \<open>state.SetStatus\<close>, \<open>state.SetEdge\<close> and \<open>versionDB.Commit\<close>,
  the writes of the store, which are not among the sources. A write that the store
  refuses returns the error and writes nothing.
\<close>

definition SetStatus :: "Serializer \<Rightarrow> ID \<Rightarrow> choicesStatus \<Rightarrow> Serializer \<times> error option" where
  "SetStatus s k st =
     (case dbFails s (PutStatus k st) of
        Some err \<Rightarrow> (s, Some err)
      | None \<Rightarrow>
          (s\<lparr>dbStatus := (dbStatus s)(k \<mapsto> st), written := written s @ [PutStatus k st]\<rparr>, None))"



subsection \<open>The methods of a unique vertex\<close>

text \<open>
  \<open>shallowRefresh\<close>, in two parts. The first, \<open>ensureState\<close>, is its first statement,
  \<open>if vtx.v == nil { vtx.v = &vertexState{} }\<close>: a handle without a state gets a new one.
  The second, \<open>refreshLatest\<close>, is the rest. When the state is not the latest, the cache
  is asked for the canonical handle: if that is this handle, the status is read from
  the store and the state becomes the latest; otherwise this handle is overwritten with
  the canonical one, and so shares its state. At last a state without a stateless vertex
  gets the one the handle had before.
\<close>

definition ensureState :: "Serializer \<Rightarrow> nat \<Rightarrow> unit result" where
  "ensureState s p =
     (case getHandle s p of
        None \<Rightarrow> (s, Inl errInvalidPointer)
      | Some h \<Rightarrow>
          (case v_uv h of
             None \<Rightarrow> (let (s1, a) = newState s in (setHandle s1 p (h\<lparr>v_uv := Some a\<rparr>), Inr ()))
           | Some a \<Rightarrow> (s, Inr ())))"

definition refreshLatest :: "Serializer \<Rightarrow> nat \<Rightarrow> unit result" where
  "refreshLatest s p =
     (case deref s p of
        Inl err \<Rightarrow> (s, Inl err)
      | Inr (h, a, st) \<Rightarrow>
          if latest st then (s, Inr ())
          else
            (case UniqueVertex s p of
               (s2, Inl err) \<Rightarrow> (s2, Inl err)
             | (s2, Inr l) \<Rightarrow>
                 (case getState s2 a of
                    None \<Rightarrow> (s2, Inl errInvalidPointer)
                  | Some st2 \<Rightarrow>
                      let prevVtx = vtx st2;
                          s3 =
                            (if l = p
                             then setState s2 a
                                    (st2\<lparr>status := stateStatus s2 (id_uv h), latest := True\<rparr>)
                             else
                               (case getHandle s2 l of
                                  None \<Rightarrow> s2
                                | Some hl \<Rightarrow> setHandle s2 p hl))
                      in
                        (case deref s3 p of
                           Inl err \<Rightarrow> (s3, Inl err)
                         | Inr (h3, a3, st3) \<Rightarrow>
                             if vtx st3 = None
                             then (setState s3 a3 (st3\<lparr>vtx := prevVtx\<rparr>), Inr ())
                             else (s3, Inr ())))))"

definition shallowRefresh :: "Serializer \<Rightarrow> nat \<Rightarrow> unit result" where
  "shallowRefresh s p =
     (case ensureState s p of
        (s1, Inl err) \<Rightarrow> (s1, Inl err)
      | (s1, Inr _) \<Rightarrow> refreshLatest s1 p)"

text \<open>
  \<open>refresh\<close>: after the shallow refresh, a fetched vertex without a stateless vertex
  reads it from the store.
\<close>

definition refresh :: "Serializer \<Rightarrow> nat \<Rightarrow> unit result" where
  "refresh s p =
     (case shallowRefresh s p of
        (s1, Inl err) \<Rightarrow> (s1, Inl err)
      | (s1, Inr _) \<Rightarrow>
          (case deref s1 p of
             Inl err \<Rightarrow> (s1, Inl err)
           | Inr (h, a, st) \<Rightarrow>
               if vtx st = None \<and> Fetched (status st)
               then (setState s1 a (st\<lparr>vtx := stateVertex s1 (id_uv h)\<rparr>), Inr ())
               else (s1, Inr ())))"

definition Status :: "Serializer \<Rightarrow> nat \<Rightarrow> choicesStatus result" where
  "Status s p =
     (case refresh s p of
        (s1, Inl err) \<Rightarrow> (s1, Inl err)
      | (s1, Inr _) \<Rightarrow>
          (case deref s1 p of
             Inl err \<Rightarrow> (s1, Inl err)
           | Inr (h, a, st) \<Rightarrow> (s1, Inr (status st))))"

text \<open>\<open>vtx.ID()\<close>\<close>

definition ID_uv :: "Serializer \<Rightarrow> nat \<Rightarrow> error + ID" where
  "ID_uv s p = (case getHandle s p of None \<Rightarrow> Inl errInvalidPointer | Some h \<Rightarrow> Inr (id_uv h))"

text \<open>
  \<open>make([]avalanche.Vertex, len(parentIDs))\<close> filled with a new handle for every parent
  ID: the serializer with the new handles, and their addresses.
\<close>

fun newHandles :: "Serializer \<Rightarrow> ID list \<Rightarrow> Serializer \<times> nat list" where
  "newHandles s [] = (s, [])"
| "newHandles s (k # ks) =
     (let (s1, p) = newHandle s k; (s2, ps) = newHandles s1 ks in (s2, p # ps))"

definition Parents :: "Serializer \<Rightarrow> nat \<Rightarrow> (nat list) result" where
  "Parents s p =
     (case refresh s p of
        (s1, Inl err) \<Rightarrow> (s1, Inl err)
      | (s1, Inr _) \<Rightarrow>
          (case deref s1 p of
             Inl err \<Rightarrow> (s1, Inl err)
           | Inr (h, a, st) \<Rightarrow>
               (case vtx st of
                  None \<Rightarrow> (s1, Inl (errGetParents (status st)))
                | Some sv \<Rightarrow>
                    if length (parents st) \<noteq> length (svParentIDs sv)
                    then
                      (let (s2, ps) = newHandles s1 (svParentIDs sv)
                       in (setState s2 a (st\<lparr>parents := ps\<rparr>), Inr ps))
                    else (s1, Inr (parents st)))))"

text \<open>
  The parsing of the transactions in \<open>Txs\<close>: a slice as long as the list of bytes, filled
  from the front; at the first transaction that does not parse the rest stays nil and
  the error is returned.
\<close>

fun parseTxs :: "(bytes \<Rightarrow> error + Tx) \<Rightarrow> bytes list \<Rightarrow> Tx option list \<times> error option" where
  "parseTxs f [] = ([], None)"
| "parseTxs f (b # bs) =
     (case f b of
        Inl err \<Rightarrow> (replicate (Suc (length bs)) None, Some err)
      | Inr tx \<Rightarrow> (let (ts, e) = parseTxs f bs in (Some tx # ts, e)))"

definition Txs :: "Serializer \<Rightarrow> nat \<Rightarrow> (Tx option list) result" where
  "Txs s p =
     (case refresh s p of
        (s1, Inl err) \<Rightarrow> (s1, Inl err)
      | (s1, Inr _) \<Rightarrow>
          (case deref s1 p of
             Inl err \<Rightarrow> (s1, Inl err)
           | Inr (h, a, st) \<Rightarrow>
               (case vtx st of
                  None \<Rightarrow> (s1, Inl (errGetTxs (status st)))
                | Some sv \<Rightarrow>
                    if length (svTxs sv) \<noteq> length (txs st)
                    then
                      (case parseTxs (ParseTx s1) (svTxs sv) of
                         (ts, Some err) \<Rightarrow> (setState s1 a (st\<lparr>txs := ts\<rparr>), Inl err)
                       | (ts, None) \<Rightarrow> (setState s1 a (st\<lparr>txs := ts\<rparr>), Inr ts))
                    else (s1, Inr (txs st)))))"

definition setStatus :: "Serializer \<Rightarrow> nat \<Rightarrow> choicesStatus \<Rightarrow> Serializer \<times> error option" where
  "setStatus s p st0 =
     (case shallowRefresh s p of
        (s1, Inl err) \<Rightarrow> (s1, Some err)
      | (s1, Inr _) \<Rightarrow>
          (case deref s1 p of
             Inl err \<Rightarrow> (s1, Some err)
           | Inr (h, a, st) \<Rightarrow>
               if status st = st0 then (s1, None)
               else SetStatus (setState s1 a (st\<lparr>status := st0\<rparr>)) (id_uv h) st0))"



text \<open>The ID and the state address of the handle at an address.\<close>

definition idOf :: "Serializer \<Rightarrow> nat \<Rightarrow> ID" where
  "idOf s p = id_uv (handles s ! p)"

text \<open>
  The invariant of the heap and the cache: the cache holds addresses of handles, at most
  one for a vertex ID; the state of a handle exists; the state of a cached handle is the
  latest; a state that is the latest belongs to a cached handle of the same vertex; and
  handles that share a state are handles of the same vertex.
\<close>

definition heapOK :: "Serializer \<Rightarrow> bool" where
  "heapOK s =
     ((\<forall>q \<in> set (uniqueVtx s). q < length (handles s)) \<and>
      distinct (map (idOf s) (uniqueVtx s)) \<and>
      (\<forall>p < length (handles s). \<forall>a. v_uv (handles s ! p) = Some a \<longrightarrow> a < length (states s)) \<and>
      (\<forall>q \<in> set (uniqueVtx s). \<exists>a. v_uv (handles s ! q) = Some a \<and> latest (states s ! a)) \<and>
      (\<forall>p < length (handles s). \<forall>a. v_uv (handles s ! p) = Some a \<and> latest (states s ! a) \<longrightarrow>
         (\<exists>q \<in> set (uniqueVtx s). idOf s q = idOf s p \<and> v_uv (handles s ! q) = Some a)) \<and>
      (\<forall>p < length (handles s). \<forall>p' < length (handles s). \<forall>a.
         v_uv (handles s ! p) = Some a \<and> v_uv (handles s ! p') = Some a \<longrightarrow> idOf s p = idOf s p'))"

text \<open>
  The current authoritative status of a vertex: the status in the state of its canonical
  handle, the cached one, when there is one; otherwise the status record of the store.
\<close>

definition authStatus :: "Serializer \<Rightarrow> ID \<Rightarrow> choicesStatus" where
  "authStatus s k =
     (case cached s k of
        Some q \<Rightarrow> (case deref s q of Inr (h, a, st) \<Rightarrow> status st | Inl err \<Rightarrow> Unknown)
      | None \<Rightarrow> stateStatus s k)"

text \<open>What a refresh keeps: the number of handles, their IDs, and everything but the heap
  and the cache.\<close>

definition sameFrame :: "Serializer \<Rightarrow> Serializer \<Rightarrow> bool" where
  "sameFrame s s' =
     (length (handles s') = length (handles s) \<and> idOf s' = idOf s \<and>
      cacheSize s' = cacheSize s \<and> dbStatus s' = dbStatus s \<and> dbVertex s' = dbVertex s \<and>
      edge s' = edge s \<and> written s' = written s \<and> dbFails s' = dbFails s \<and>
      ParseTx s' = ParseTx s \<and> XChainMigrationTime s' = XChainMigrationTime s)"

text \<open>
  The calls that change the heap and the cache, for the statement of C6: a new handle
  for a vertex ID, \<open>Status\<close> and \<open>setStatus\<close> on a handle, and the eviction of the least
  recently used handle by the cache.
\<close>

datatype heapCall = NewHandle ID | CallStatus nat | CallSetStatus nat choicesStatus | CacheEvict

definition evictOldest :: "Serializer \<Rightarrow> Serializer" where
  "evictOldest s =
     (case uniqueVtx s of [] \<Rightarrow> s | e # rest \<Rightarrow> fst (Evict (s\<lparr>uniqueVtx := rest\<rparr>) e))"

fun heapStep :: "Serializer \<Rightarrow> heapCall \<Rightarrow> Serializer" where
  "heapStep s (NewHandle k) = fst (newHandle s k)"
| "heapStep s (CallStatus p) = fst (Status s p)"
| "heapStep s (CallSetStatus p st) = fst (setStatus s p st)"
| "heapStep s CacheEvict = evictOldest s"

definition heapRun :: "Serializer \<Rightarrow> heapCall list \<Rightarrow> Serializer" where
  "heapRun s cs = foldl heapStep s cs"

text \<open>A serializer that has created no handle yet.\<close>

definition noHandles :: "Serializer \<Rightarrow> bool" where
  "noHandles s = (handles s = [] \<and> states s = [] \<and> uniqueVtx s = [])"

text \<open>
  An example: a store with the status records of the vertices 7 and 8 and a cache of
  size 1. Two handles are created and refreshed in turn, so that the second evicts the
  first; then a third handle, of vertex 7 again, is refreshed and accepts the vertex.
\<close>

definition exampleStore :: Serializer where
  "exampleStore =
     \<lparr>handles = [], states = [], uniqueVtx = [], cacheSize = 1,
      dbStatus = [7 \<mapsto> Processing, 8 \<mapsto> Accepted], dbVertex = [], edge = {}, written = [],
      dbFails = (\<lambda>w. None), ParseTx = (\<lambda>b. Inl (VMErr ''no parser'')),
      XChainMigrationTime = 0\<rparr>"

definition exampleCalls :: "heapCall list" where
  "exampleCalls =
     [NewHandle 7, CallStatus 0, NewHandle 8, CallStatus 1, NewHandle 7, CallSetStatus 2 Accepted]"

subsection \<open>Properties of unique vertices\<close>

lemma heapOK_I:
  assumes "\<And>q. q \<in> set (uniqueVtx s) \<Longrightarrow> q < length (handles s)"
    and "distinct (map (idOf s) (uniqueVtx s))"
    and "\<And>p a. p < length (handles s) \<Longrightarrow> v_uv (handles s ! p) = Some a \<Longrightarrow> a < length (states s)"
    and "\<And>q. q \<in> set (uniqueVtx s) \<Longrightarrow> \<exists>a. v_uv (handles s ! q) = Some a \<and> latest (states s ! a)"
    and "\<And>p a. p < length (handles s) \<Longrightarrow> v_uv (handles s ! p) = Some a \<Longrightarrow> latest (states s ! a) \<Longrightarrow>
           \<exists>q \<in> set (uniqueVtx s). idOf s q = idOf s p \<and> v_uv (handles s ! q) = Some a"
    and "\<And>p p' a. p < length (handles s) \<Longrightarrow> p' < length (handles s) \<Longrightarrow>
           v_uv (handles s ! p) = Some a \<Longrightarrow> v_uv (handles s ! p') = Some a \<Longrightarrow> idOf s p = idOf s p'"
  shows "heapOK s"
  unfolding heapOK_def using assms by blast

lemma heapOK_cache_valid: "heapOK s \<Longrightarrow> q \<in> set (uniqueVtx s) \<Longrightarrow> q < length (handles s)"
  by (simp add: heapOK_def)

lemma heapOK_distinct: "heapOK s \<Longrightarrow> distinct (map (idOf s) (uniqueVtx s))"
  by (simp add: heapOK_def)

lemma heapOK_state_valid:
  "heapOK s \<Longrightarrow> p < length (handles s) \<Longrightarrow> v_uv (handles s ! p) = Some a \<Longrightarrow> a < length (states s)"
  by (simp add: heapOK_def)

lemma heapOK_cache_latest:
  "heapOK s \<Longrightarrow> q \<in> set (uniqueVtx s) \<Longrightarrow> \<exists>a. v_uv (handles s ! q) = Some a \<and> latest (states s ! a)"
  by (simp add: heapOK_def)

lemma heapOK_latest_cached:
  "heapOK s \<Longrightarrow> p < length (handles s) \<Longrightarrow> v_uv (handles s ! p) = Some a \<Longrightarrow> latest (states s ! a) \<Longrightarrow>
   \<exists>q \<in> set (uniqueVtx s). idOf s q = idOf s p \<and> v_uv (handles s ! q) = Some a"
  unfolding heapOK_def by blast

lemma heapOK_same_id:
  "heapOK s \<Longrightarrow> p < length (handles s) \<Longrightarrow> p' < length (handles s) \<Longrightarrow>
   v_uv (handles s ! p) = Some a \<Longrightarrow> v_uv (handles s ! p') = Some a \<Longrightarrow> idOf s p = idOf s p'"
  unfolding heapOK_def by blast

text \<open>The cache lookup under the invariant.\<close>

lemma find_getHandle:
  "\<forall>q \<in> set xs. q < length (handles s) \<Longrightarrow>
   find (\<lambda>q. case getHandle s q of None \<Rightarrow> False | Some h \<Rightarrow> id_uv h = k) xs =
   find (\<lambda>q. idOf s q = k) xs"
  by (induction xs) (simp_all add: getHandle_def idOf_def)

lemma cached_find:
  assumes "\<forall>q \<in> set (uniqueVtx s). q < length (handles s)"
  shows "cached s k = find (\<lambda>q. idOf s q = k) (uniqueVtx s)"
  unfolding cached_def using assms by (rule find_getHandle)

lemma find_distinct_map:
  "distinct (map f xs) \<Longrightarrow> x \<in> set xs \<Longrightarrow> find (\<lambda>y. f y = f x) xs = Some x"
  by (induction xs) auto

lemma find_SomeD: "find P xs = Some x \<Longrightarrow> x \<in> set xs \<and> P x"
  by (induction xs) (auto split: if_splits)

lemma find_None_map: "(find (\<lambda>y. f y = k) xs = None) = (k \<notin> f ` set xs)"
  by (induction xs) auto

lemma cached_Some:
  assumes "heapOK s" and "q \<in> set (uniqueVtx s)"
  shows "cached s (idOf s q) = Some q"
proof -
  have "cached s (idOf s q) = find (\<lambda>y. idOf s y = idOf s q) (uniqueVtx s)"
    using assms(1) by (intro cached_find) (simp add: heapOK_def)
  also have "\<dots> = Some q"
    using assms by (intro find_distinct_map) (simp_all add: heapOK_def)
  finally show ?thesis .
qed

lemma cached_SomeD:
  assumes "heapOK s" and "cached s k = Some q"
  shows "q \<in> set (uniqueVtx s) \<and> idOf s q = k"
proof -
  have "cached s k = find (\<lambda>y. idOf s y = k) (uniqueVtx s)"
    using assms(1) by (intro cached_find) (simp add: heapOK_def)
  with assms(2) have "find (\<lambda>y. idOf s y = k) (uniqueVtx s) = Some q" by simp
  then show ?thesis by (rule find_SomeD)
qed

lemma cached_None:
  assumes "heapOK s"
  shows "(cached s k = None) = (k \<notin> idOf s ` set (uniqueVtx s))"
proof -
  have "cached s k = find (\<lambda>y. idOf s y = k) (uniqueVtx s)"
    using assms(1) by (intro cached_find) (simp add: heapOK_def)
  then show ?thesis by (simp only: find_None_map)
qed

lemma authStatus_latest:
  assumes ok: "heapOK s" and p: "p < length (handles s)" and v: "v_uv (handles s ! p) = Some a"
    and l: "latest (states s ! a)"
  shows "authStatus s (idOf s p) = status (states s ! a)"
proof -
  from heapOK_latest_cached [OF ok p v l] obtain q where
    q: "q \<in> set (uniqueVtx s)" "idOf s q = idOf s p" "v_uv (handles s ! q) = Some a"
    by blast
  have c: "cached s (idOf s p) = Some q"
    using cached_Some [OF ok q(1)] q(2) by simp
  have "deref s q = Inr (handles s ! q, a, states s ! a)"
    using heapOK_cache_valid [OF ok q(1)] q(3) heapOK_state_valid [OF ok p v]
    by (simp add: deref_def getHandle_def getState_def)
  then show ?thesis by (simp add: authStatus_def c)
qed

lemma setState_simps [simp]:
  "handles (setState s a st) = handles s"
  "states (setState s a st) = (states s)[a := st]"
  "uniqueVtx (setState s a st) = uniqueVtx s"
  "cacheSize (setState s a st) = cacheSize s"
  "dbStatus (setState s a st) = dbStatus s"
  "dbVertex (setState s a st) = dbVertex s"
  "edge (setState s a st) = edge s"
  "written (setState s a st) = written s"
  "dbFails (setState s a st) = dbFails s"
  "ParseTx (setState s a st) = ParseTx s"
  "XChainMigrationTime (setState s a st) = XChainMigrationTime s"
  by (simp_all add: setState_def)

lemma setHandle_simps [simp]:
  "handles (setHandle s p h) = (handles s)[p := h]"
  "states (setHandle s p h) = states s"
  "uniqueVtx (setHandle s p h) = uniqueVtx s"
  "cacheSize (setHandle s p h) = cacheSize s"
  "dbStatus (setHandle s p h) = dbStatus s"
  "dbVertex (setHandle s p h) = dbVertex s"
  "edge (setHandle s p h) = edge s"
  "written (setHandle s p h) = written s"
  "dbFails (setHandle s p h) = dbFails s"
  "ParseTx (setHandle s p h) = ParseTx s"
  "XChainMigrationTime (setHandle s p h) = XChainMigrationTime s"
  by (simp_all add: setHandle_def)

lemma newState_simps [simp]:
  "handles (fst (newState s)) = handles s"
  "states (fst (newState s)) =
     states s @ [\<lparr>latest = False, vtx = None, status = Unknown, parents = [], txs = []\<rparr>]"
  "uniqueVtx (fst (newState s)) = uniqueVtx s"
  "cacheSize (fst (newState s)) = cacheSize s"
  "dbStatus (fst (newState s)) = dbStatus s"
  "dbVertex (fst (newState s)) = dbVertex s"
  "edge (fst (newState s)) = edge s"
  "written (fst (newState s)) = written s"
  "dbFails (fst (newState s)) = dbFails s"
  "ParseTx (fst (newState s)) = ParseTx s"
  "XChainMigrationTime (fst (newState s)) = XChainMigrationTime s"
  "snd (newState s) = length (states s)"
  by (simp_all add: newState_def)

lemma idOf_setState [simp]: "idOf (setState s a st) = idOf s"
  by (rule ext) (simp add: idOf_def)

lemma idOf_cache [simp]: "idOf (s\<lparr>uniqueVtx := c\<rparr>) = idOf s"
  by (rule ext) (simp add: idOf_def)

lemma idOf_states [simp]: "idOf (s\<lparr>states := c\<rparr>) = idOf s"
  by (rule ext) (simp add: idOf_def)

text \<open>A state changes in fields other than the latest bit.\<close>

lemma heapOK_setState:
  assumes ok: "heapOK s" and l: "a < length (states s) \<Longrightarrow> latest st' = latest (states s ! a)"
  shows "heapOK (setState s a st')"
proof (rule heapOK_I)
  fix q assume "q \<in> set (uniqueVtx (setState s a st'))"
  then show "q < length (handles (setState s a st'))"
    using heapOK_cache_valid [OF ok] by simp
next
  show "distinct (map (idOf (setState s a st')) (uniqueVtx (setState s a st')))"
    using heapOK_distinct [OF ok] by simp
next
  fix p b assume "p < length (handles (setState s a st'))" "v_uv (handles (setState s a st') ! p) = Some b"
  then show "b < length (states (setState s a st'))"
    using heapOK_state_valid [OF ok] by simp
next
  fix q assume "q \<in> set (uniqueVtx (setState s a st'))"
  then have q: "q \<in> set (uniqueVtx s)" by simp
  from heapOK_cache_latest [OF ok q] obtain b where
    b: "v_uv (handles s ! q) = Some b" "latest (states s ! b)" by blast
  have "b < length (states s)"
    using heapOK_state_valid [OF ok heapOK_cache_valid [OF ok q] b(1)] .
  then have "latest ((states s)[a := st'] ! b)"
    using b(2) l by (cases "a = b") simp_all
  with b(1) show "\<exists>b. v_uv (handles (setState s a st') ! q) = Some b \<and> latest (states (setState s a st') ! b)"
    by simp
next
  fix p b
  assume p: "p < length (handles (setState s a st'))"
    and v: "v_uv (handles (setState s a st') ! p) = Some b"
    and lt: "latest (states (setState s a st') ! b)"
  have pv: "p < length (handles s)" "v_uv (handles s ! p) = Some b" using p v by simp_all
  have bl: "b < length (states s)" using heapOK_state_valid [OF ok pv] .
  have "latest (states s ! b)"
    using lt l bl by (cases "a = b") simp_all
  from heapOK_latest_cached [OF ok pv this]
  show "\<exists>q \<in> set (uniqueVtx (setState s a st')).
          idOf (setState s a st') q = idOf (setState s a st') p \<and>
          v_uv (handles (setState s a st') ! q) = Some b"
    by simp
next
  fix p p' b
  assume "p < length (handles (setState s a st'))" "p' < length (handles (setState s a st'))"
    "v_uv (handles (setState s a st') ! p) = Some b" "v_uv (handles (setState s a st') ! p') = Some b"
  then show "idOf (setState s a st') p = idOf (setState s a st') p'"
    using heapOK_same_id [OF ok, of p p' b] by simp
qed

text \<open>A handle without a state gets a new state.\<close>

lemma heapOK_newState:
  assumes ok: "heapOK s" and p: "p < length (handles s)" and v: "v_uv (handles s ! p) = None"
  shows "heapOK (setHandle (fst (newState s)) p ((handles s ! p)\<lparr>v_uv := Some (length (states s))\<rparr>))"
    (is "heapOK ?s'")
proof -
  have hs: "handles ?s' = (handles s)[p := (handles s ! p)\<lparr>v_uv := Some (length (states s))\<rparr>]"
    and ss: "states ?s' = states s @ [\<lparr>latest = False, vtx = None, status = Unknown, parents = [], txs = []\<rparr>]"
    and cs: "uniqueVtx ?s' = uniqueVtx s"
    by (simp_all add: newState_def)
  have ids: "idOf ?s' r = idOf s r" for r
    using p by (cases "r = p") (simp_all add: idOf_def)
  have idf: "idOf ?s' = idOf s"
    by (rule ext) (rule ids)
  have pc: "p \<notin> set (uniqueVtx s)"
    using heapOK_cache_latest [OF ok, of p] v by auto
  have vs: "v_uv (handles ?s' ! r) = (if r = p then Some (length (states s)) else v_uv (handles s ! r))"
    if "r < length (handles s)" for r
    using that by (simp add: nth_list_update)
  show ?thesis
  proof (rule heapOK_I)
    fix q assume "q \<in> set (uniqueVtx ?s')"
    then show "q < length (handles ?s')"
      using heapOK_cache_valid [OF ok] by (simp add: cs hs)
  next
    show "distinct (map (idOf ?s') (uniqueVtx ?s'))"
      unfolding idf cs using heapOK_distinct [OF ok] .
  next
    fix r b assume r: "r < length (handles ?s')" and b: "v_uv (handles ?s' ! r) = Some b"
    have r': "r < length (handles s)" using r by (simp add: hs)
    show "b < length (states ?s')"
    proof (cases "r = p")
      case True
      then show ?thesis using b vs [OF r'] by (simp add: ss)
    next
      case False
      then have "v_uv (handles s ! r) = Some b" using b vs [OF r'] by simp
      from heapOK_state_valid [OF ok r' this] show ?thesis by (simp add: ss)
    qed
  next
    fix q assume "q \<in> set (uniqueVtx ?s')"
    then have q: "q \<in> set (uniqueVtx s)" by (simp add: cs)
    then have qp: "q \<noteq> p" using pc by blast
    from heapOK_cache_latest [OF ok q] obtain b where
      b: "v_uv (handles s ! q) = Some b" "latest (states s ! b)" by blast
    have bl: "b < length (states s)"
      using heapOK_state_valid [OF ok heapOK_cache_valid [OF ok q] b(1)] .
    have "v_uv (handles ?s' ! q) = Some b"
      using vs [OF heapOK_cache_valid [OF ok q]] qp b(1) by simp
    moreover have "latest (states ?s' ! b)"
      using bl b(2) by (simp add: ss nth_append)
    ultimately show "\<exists>b. v_uv (handles ?s' ! q) = Some b \<and> latest (states ?s' ! b)"
      by blast
  next
    fix r b
    assume r: "r < length (handles ?s')" and b: "v_uv (handles ?s' ! r) = Some b"
      and lt: "latest (states ?s' ! b)"
    have r': "r < length (handles s)" using r by (simp add: hs)
    have rp: "r \<noteq> p"
    proof
      assume "r = p"
      then have "b = length (states s)" using b vs [OF r'] by simp
      then show False using lt by (simp add: ss)
    qed
    then have vb: "v_uv (handles s ! r) = Some b" using b vs [OF r'] by simp
    have bl: "b < length (states s)" using heapOK_state_valid [OF ok r' vb] .
    then have "latest (states s ! b)" using lt by (simp add: ss nth_append)
    from heapOK_latest_cached [OF ok r' vb this] obtain q where
      q: "q \<in> set (uniqueVtx s)" "idOf s q = idOf s r" "v_uv (handles s ! q) = Some b"
      by blast
    have "q \<noteq> p" using q(1) pc by blast
    then have "v_uv (handles ?s' ! q) = Some b"
      using vs [OF heapOK_cache_valid [OF ok q(1)]] q(3) by simp
    with q(1,2) show "\<exists>q \<in> set (uniqueVtx ?s'). idOf ?s' q = idOf ?s' r \<and> v_uv (handles ?s' ! q) = Some b"
      by (auto simp: cs ids)
  next
    fix r r' b
    assume r: "r < length (handles ?s')" "r' < length (handles ?s')"
      and b: "v_uv (handles ?s' ! r) = Some b" "v_uv (handles ?s' ! r') = Some b"
    have rl: "r < length (handles s)" "r' < length (handles s)" using r by (simp_all add: hs)
    show "idOf ?s' r = idOf ?s' r'"
    proof (cases "b = length (states s)")
      case True
      have "r = p"
      proof (rule ccontr)
        assume "r \<noteq> p"
        then have "v_uv (handles s ! r) = Some b" using b(1) vs [OF rl(1)] by simp
        from heapOK_state_valid [OF ok rl(1) this] True show False by simp
      qed
      moreover have "r' = p"
      proof (rule ccontr)
        assume "r' \<noteq> p"
        then have "v_uv (handles s ! r') = Some b" using b(2) vs [OF rl(2)] by simp
        from heapOK_state_valid [OF ok rl(2) this] True show False by simp
      qed
      ultimately show ?thesis by simp
    next
      case False
      have "r \<noteq> p" using False b(1) vs [OF rl(1)] by auto
      then have b1: "v_uv (handles s ! r) = Some b" using b(1) vs [OF rl(1)] by simp
      have "r' \<noteq> p" using False b(2) vs [OF rl(2)] by auto
      then have b2: "v_uv (handles s ! r') = Some b" using b(2) vs [OF rl(2)] by simp
      from heapOK_same_id [OF ok rl b1 b2] show ?thesis by (simp add: ids)
    qed
  qed
qed

lemma notin_remove1: "x \<notin> f ` set xs \<Longrightarrow> x \<notin> f ` set (remove1 q xs)"
  using set_remove1_subset [of q xs] by blast

lemma distinct_map_touch:
  "distinct (map f xs) \<Longrightarrow> q \<in> set xs \<Longrightarrow> distinct (map f (remove1 q xs @ [q]))"
proof (induction xs)
  case Nil
  then show ?case by simp
next
  case (Cons x xs)
  show ?case
  proof (cases "x = q")
    case True
    then show ?thesis using Cons.prems by simp
  next
    case False
    then have q: "q \<in> set xs" using Cons.prems by simp
    have fx: "f x \<notin> f ` set xs" and d: "distinct (map f xs)" using Cons.prems by simp_all
    have "f x \<noteq> f q" using fx q by blast
    moreover have "f x \<notin> f ` set (remove1 q xs)" using fx by (rule notin_remove1)
    ultimately show ?thesis using False Cons.IH [OF d q] by simp
  qed
qed

text \<open>The canonical handle becomes the most recently used.\<close>

lemma heapOK_touch:
  assumes ok: "heapOK s" and q: "q \<in> set (uniqueVtx s)"
  shows "heapOK (s\<lparr>uniqueVtx := remove1 q (uniqueVtx s) @ [q]\<rparr>)" (is "heapOK ?s'")
proof -
  have d: "distinct (uniqueVtx s)"
    using heapOK_distinct [OF ok] by (simp add: distinct_map)
  have st: "set (remove1 q (uniqueVtx s) @ [q]) = set (uniqueVtx s)"
    using q d by auto
  have dm: "distinct (map (idOf s) (remove1 q (uniqueVtx s) @ [q]))"
    using heapOK_distinct [OF ok] q by (rule distinct_map_touch)
  have mem: "set (uniqueVtx ?s') = set (uniqueVtx s)"
  proof -
    have "uniqueVtx ?s' = remove1 q (uniqueVtx s) @ [q]" by simp
    then show ?thesis by (simp only: st)
  qed
  show ?thesis
  proof (rule heapOK_I)
    fix r assume "r \<in> set (uniqueVtx ?s')"
    then have "r \<in> set (uniqueVtx s)" unfolding mem .
    then show "r < length (handles ?s')"
      using heapOK_cache_valid [OF ok] by simp
  next
    show "distinct (map (idOf ?s') (uniqueVtx ?s'))" using dm by simp
  next
    fix p a assume "p < length (handles ?s')" "v_uv (handles ?s' ! p) = Some a"
    then show "a < length (states ?s')" using heapOK_state_valid [OF ok] by simp
  next
    fix r assume "r \<in> set (uniqueVtx ?s')"
    then have "r \<in> set (uniqueVtx s)" unfolding mem .
    from heapOK_cache_latest [OF ok this]
    show "\<exists>a. v_uv (handles ?s' ! r) = Some a \<and> latest (states ?s' ! a)" by simp
  next
    fix p a assume "p < length (handles ?s')" "v_uv (handles ?s' ! p) = Some a" "latest (states ?s' ! a)"
    then have "\<exists>r \<in> set (uniqueVtx s). idOf s r = idOf s p \<and> v_uv (handles s ! r) = Some a"
      using heapOK_latest_cached [OF ok, of p a] by simp
    then show "\<exists>r \<in> set (uniqueVtx ?s'). idOf ?s' r = idOf ?s' p \<and> v_uv (handles ?s' ! r) = Some a"
      unfolding mem by simp
  next
    fix p p' a
    assume "p < length (handles ?s')" "p' < length (handles ?s')"
      "v_uv (handles ?s' ! p) = Some a" "v_uv (handles ?s' ! p') = Some a"
    then show "idOf ?s' p = idOf ?s' p'"
      using heapOK_same_id [OF ok, of p p' a] by simp
  qed
qed

text \<open>A handle is overwritten with the canonical handle of its vertex.\<close>

lemma heapOK_copy:
  assumes ok: "heapOK s" and p: "p < length (handles s)" and q: "q \<in> set (uniqueVtx s)"
    and same: "idOf s q = idOf s p"
  shows "heapOK (setHandle s p (handles s ! q))" (is "heapOK ?s'")
proof (cases "p = q")
  case True
  then have "?s' = s" using p by (simp add: setHandle_def)
  then show ?thesis using ok by simp
next
  case False
  have ql: "q < length (handles s)" using heapOK_cache_valid [OF ok q] .
  from heapOK_cache_latest [OF ok q] obtain aq where
    aq: "v_uv (handles s ! q) = Some aq" "latest (states s ! aq)" by blast
  have pc: "p \<notin> set (uniqueVtx s)"
  proof
    assume "p \<in> set (uniqueVtx s)"
    from cached_Some [OF ok this] cached_Some [OF ok q] same have "p = q" by simp
    with False show False by simp
  qed
  have ids: "idOf ?s' r = idOf s r" for r
    using p same by (cases "r = p") (simp_all add: idOf_def)
  have idf: "idOf ?s' = idOf s" by (rule ext) (rule ids)
  have vs: "v_uv (handles ?s' ! r) = (if r = p then Some aq else v_uv (handles s ! r))"
    if "r < length (handles s)" for r
    using that aq(1) by (simp add: nth_list_update)
  show ?thesis
  proof (rule heapOK_I)
    fix r assume "r \<in> set (uniqueVtx ?s')"
    then show "r < length (handles ?s')" using heapOK_cache_valid [OF ok] by simp
  next
    show "distinct (map (idOf ?s') (uniqueVtx ?s'))"
      unfolding idf using heapOK_distinct [OF ok] by simp
  next
    fix r b assume r: "r < length (handles ?s')" and b: "v_uv (handles ?s' ! r) = Some b"
    have rl: "r < length (handles s)" using r by simp
    show "b < length (states ?s')"
    proof (cases "r = p")
      case True
      then have "b = aq" using b vs [OF rl] by simp
      then show ?thesis using heapOK_state_valid [OF ok ql aq(1)] by simp
    next
      case False
      then have "v_uv (handles s ! r) = Some b" using b vs [OF rl] by simp
      from heapOK_state_valid [OF ok rl this] show ?thesis by simp
    qed
  next
    fix r assume "r \<in> set (uniqueVtx ?s')"
    then have r: "r \<in> set (uniqueVtx s)" by simp
    then have "r \<noteq> p" using pc by blast
    then have "v_uv (handles ?s' ! r) = v_uv (handles s ! r)"
      using vs [OF heapOK_cache_valid [OF ok r]] by simp
    then show "\<exists>a. v_uv (handles ?s' ! r) = Some a \<and> latest (states ?s' ! a)"
      using heapOK_cache_latest [OF ok r] by simp
  next
    fix r b
    assume r: "r < length (handles ?s')" and b: "v_uv (handles ?s' ! r) = Some b"
      and lt: "latest (states ?s' ! b)"
    have rl: "r < length (handles s)" using r by simp
    have "\<exists>c \<in> set (uniqueVtx s). idOf s c = idOf s r \<and> v_uv (handles s ! c) = Some b"
    proof (cases "r = p")
      case True
      then have "b = aq" using b vs [OF rl] by simp
      then show ?thesis using q same aq(1) True by auto
    next
      case False
      then have "v_uv (handles s ! r) = Some b" using b vs [OF rl] by simp
      from heapOK_latest_cached [OF ok rl this] lt show ?thesis by simp
    qed
    then obtain c where c: "c \<in> set (uniqueVtx s)" "idOf s c = idOf s r" "v_uv (handles s ! c) = Some b"
      by blast
    have "c \<noteq> p" using c(1) pc by blast
    then have "v_uv (handles ?s' ! c) = Some b"
      using vs [OF heapOK_cache_valid [OF ok c(1)]] c(3) by simp
    with c(1,2) show "\<exists>c \<in> set (uniqueVtx ?s'). idOf ?s' c = idOf ?s' r \<and> v_uv (handles ?s' ! c) = Some b"
      by (auto simp: ids)
  next
    fix r r' b
    assume r: "r < length (handles ?s')" "r' < length (handles ?s')"
      and b: "v_uv (handles ?s' ! r) = Some b" "v_uv (handles ?s' ! r') = Some b"
    have rl: "r < length (handles s)" "r' < length (handles s)" using r by simp_all
    have key: "idOf s x = idOf s q" if "x < length (handles s)" "v_uv (handles ?s' ! x) = Some aq" for x
    proof (cases "x = p")
      case True
      then show ?thesis using same by simp
    next
      case False
      then have "v_uv (handles s ! x) = Some aq" using that vs [OF that(1)] by simp
      from heapOK_same_id [OF ok that(1) ql this aq(1)] show ?thesis .
    qed
    show "idOf ?s' r = idOf ?s' r'"
    proof (cases "b = aq")
      case True
      then show ?thesis using key [OF rl(1)] key [OF rl(2)] b by (simp add: ids)
    next
      case False
      have "r \<noteq> p" using False b(1) vs [OF rl(1)] by auto
      then have b1: "v_uv (handles s ! r) = Some b" using b(1) vs [OF rl(1)] by simp
      have "r' \<noteq> p" using False b(2) vs [OF rl(2)] by auto
      then have b2: "v_uv (handles s ! r') = Some b" using b(2) vs [OF rl(2)] by simp
      from heapOK_same_id [OF ok rl b1 b2] show ?thesis by (simp add: ids)
    qed
  qed
qed

text \<open>The least recently used handle is evicted.\<close>

lemma evict_state:
  assumes ok: "heapOK s" and c: "uniqueVtx s = e # rest"
  shows "e < length (handles s) \<and>
         (\<exists>ae. v_uv (handles s ! e) = Some ae \<and> ae < length (states s) \<and> latest (states s ! ae))"
proof -
  have ec: "e \<in> set (uniqueVtx s)" using c by simp
  have el: "e < length (handles s)" using heapOK_cache_valid [OF ok ec] .
  from heapOK_cache_latest [OF ok ec] obtain ae where
    ae: "v_uv (handles s ! e) = Some ae" "latest (states s ! ae)" by blast
  have al: "ae < length (states s)" using heapOK_state_valid [OF ok el ae(1)] .
  from el ae al show ?thesis by blast
qed

lemma Evict_eq:
  assumes "e < length (handles s)" and "v_uv (handles s ! e) = Some ae" and "ae < length (states s)"
  shows "Evict (s\<lparr>uniqueVtx := rest\<rparr>) e =
           (setState (s\<lparr>uniqueVtx := rest\<rparr>) ae ((states s ! ae)\<lparr>latest := False, parents := []\<rparr>),
            Inr ())"
  using assms by (simp add: Evict_def getHandle_def getState_def)

lemma heapOK_evict:
  assumes ok: "heapOK s" and c: "uniqueVtx s = e # rest" and ae1: "v_uv (handles s ! e) = Some ae"
  shows "heapOK (setState (s\<lparr>uniqueVtx := rest\<rparr>) ae
                     ((states s ! ae)\<lparr>latest := False, parents := []\<rparr>))"
proof -
  have ec: "e \<in> set (uniqueVtx s)" using c by simp
  have el: "e < length (handles s)" using heapOK_cache_valid [OF ok ec] .
  have al: "ae < length (states s)" using heapOK_state_valid [OF ok el ae1] .
  let ?s' = "setState (s\<lparr>uniqueVtx := rest\<rparr>) ae ((states s ! ae)\<lparr>latest := False, parents := []\<rparr>)"
  have d: "distinct (map (idOf s) (e # rest))" using heapOK_distinct [OF ok] c by simp
  have rest: "r \<in> set (uniqueVtx s)" if "r \<in> set rest" for r using that c by simp
  have ne: "v_uv (handles s ! r) \<noteq> Some ae" if r: "r \<in> set rest" for r
  proof
    assume v: "v_uv (handles s ! r) = Some ae"
    from heapOK_same_id [OF ok heapOK_cache_valid [OF ok rest [OF r]] el v ae1]
    have same: "idOf s r = idOf s e" .
    have "idOf s r \<in> idOf s ` set rest" using r by (rule imageI)
    then have "idOf s e \<in> idOf s ` set rest" unfolding same .
    with d show False by simp
  qed
  show "heapOK ?s'"
  proof (rule heapOK_I)
    fix r assume "r \<in> set (uniqueVtx ?s')"
    then show "r < length (handles ?s')" using heapOK_cache_valid [OF ok] rest by simp
  next
    show "distinct (map (idOf ?s') (uniqueVtx ?s'))" using d by simp
  next
    fix p b assume "p < length (handles ?s')" "v_uv (handles ?s' ! p) = Some b"
    then show "b < length (states ?s')" using heapOK_state_valid [OF ok] by simp
  next
    fix r assume "r \<in> set (uniqueVtx ?s')"
    then have r: "r \<in> set rest" by simp
    from heapOK_cache_latest [OF ok rest [OF r]] obtain b where
      b: "v_uv (handles s ! r) = Some b" "latest (states s ! b)" by blast
    have "b \<noteq> ae" using ne [OF r] b(1) by auto
    then show "\<exists>b. v_uv (handles ?s' ! r) = Some b \<and> latest (states ?s' ! b)"
      using b by simp
  next
    fix p b
    assume p: "p < length (handles ?s')" and v: "v_uv (handles ?s' ! p) = Some b"
      and lt: "latest (states ?s' ! b)"
    have pl: "p < length (handles s)" and vb: "v_uv (handles s ! p) = Some b" using p v by simp_all
    have bne: "b \<noteq> ae" using lt al by auto
    then have "latest (states s ! b)" using lt by simp
    from heapOK_latest_cached [OF ok pl vb this] obtain q where
      q: "q \<in> set (uniqueVtx s)" "idOf s q = idOf s p" "v_uv (handles s ! q) = Some b" by blast
    have "q \<noteq> e" using q(3) ae1 bne by auto
    then have "q \<in> set rest" using q(1) c by simp
    with q(2,3) show "\<exists>q \<in> set (uniqueVtx ?s'). idOf ?s' q = idOf ?s' p \<and> v_uv (handles ?s' ! q) = Some b"
      by auto
  next
    fix p p' b
    assume "p < length (handles ?s')" "p' < length (handles ?s')"
      "v_uv (handles ?s' ! p) = Some b" "v_uv (handles ?s' ! p') = Some b"
    then show "idOf ?s' p = idOf ?s' p'"
      using heapOK_same_id [OF ok, of p p' b] by simp
  qed
qed

text \<open>A handle enters the cache and its state becomes the latest.\<close>

lemma heapOK_insert:
  assumes ok: "heapOK s" and p: "p < length (handles s)" and v: "v_uv (handles s ! p) = Some a"
    and fresh: "idOf s p \<notin> idOf s ` set (uniqueVtx s)" and lt: "latest st'"
  shows "heapOK (setState (s\<lparr>uniqueVtx := uniqueVtx s @ [p]\<rparr>) a st')" (is "heapOK ?s'")
proof (rule heapOK_I)
  fix r assume "r \<in> set (uniqueVtx ?s')"
  then show "r < length (handles ?s')" using heapOK_cache_valid [OF ok] p by auto
next
  show "distinct (map (idOf ?s') (uniqueVtx ?s'))"
    using heapOK_distinct [OF ok] fresh by simp
next
  fix r b assume "r < length (handles ?s')" "v_uv (handles ?s' ! r) = Some b"
  then show "b < length (states ?s')" using heapOK_state_valid [OF ok] by simp
next
  have al: "a < length (states s)" using heapOK_state_valid [OF ok p v] .
  fix r assume "r \<in> set (uniqueVtx ?s')"
  then consider "r = p" | "r \<in> set (uniqueVtx s)" by auto
  then show "\<exists>b. v_uv (handles ?s' ! r) = Some b \<and> latest (states ?s' ! b)"
  proof cases
    case 1
    then show ?thesis using v lt al by simp
  next
    case 2
    from heapOK_cache_latest [OF ok 2] obtain b where
      b: "v_uv (handles s ! r) = Some b" "latest (states s ! b)" by blast
    show ?thesis using b lt al by (cases "b = a") simp_all
  qed
next
  have al: "a < length (states s)" using heapOK_state_valid [OF ok p v] .
  fix r b
  assume r: "r < length (handles ?s')" and vb: "v_uv (handles ?s' ! r) = Some b"
    and l: "latest (states ?s' ! b)"
  have rl: "r < length (handles s)" and vr: "v_uv (handles s ! r) = Some b" using r vb by simp_all
  show "\<exists>q \<in> set (uniqueVtx ?s'). idOf ?s' q = idOf ?s' r \<and> v_uv (handles ?s' ! q) = Some b"
  proof (cases "b = a")
    case True
    from heapOK_same_id [OF ok p rl v] vr True have "idOf s p = idOf s r" by simp
    then show ?thesis using v True by simp
  next
    case False
    then have "latest (states s ! b)" using l by simp
    from heapOK_latest_cached [OF ok rl vr this] show ?thesis by auto
  qed
next
  fix r r' b
  assume "r < length (handles ?s')" "r' < length (handles ?s')"
    "v_uv (handles ?s' ! r) = Some b" "v_uv (handles ?s' ! r') = Some b"
  then show "idOf ?s' r = idOf ?s' r'"
    using heapOK_same_id [OF ok, of r r' b] by simp
qed

lemma deref_valid:
  assumes "heapOK s" and "p < length (handles s)" and "v_uv (handles s ! p) = Some a"
  shows "deref s p = Inr (handles s ! p, a, states s ! a)"
  using assms heapOK_state_valid [OF assms]
  by (simp add: deref_def getHandle_def getState_def)

lemma authStatus_cached:
  assumes ok: "heapOK s" and c: "cached s k = Some q"
  shows "\<exists>a. v_uv (handles s ! q) = Some a \<and> authStatus s k = status (states s ! a)"
proof -
  from cached_SomeD [OF ok c] have q: "q \<in> set (uniqueVtx s)" by simp
  from heapOK_cache_latest [OF ok q] obtain a where a: "v_uv (handles s ! q) = Some a" by blast
  from deref_valid [OF ok heapOK_cache_valid [OF ok q] a] a c
  show ?thesis by (simp add: authStatus_def)
qed

lemma sameFrame_refl [simp]: "sameFrame s s"
  by (simp add: sameFrame_def)

lemma sameFrame_trans: "sameFrame s s' \<Longrightarrow> sameFrame s' s'' \<Longrightarrow> sameFrame s s''"
  by (simp add: sameFrame_def)

lemma sameFrame_setState [simp]: "sameFrame s (setState s a st)"
  by (simp add: sameFrame_def)

lemma sameFrame_cache [simp]: "sameFrame s (s\<lparr>uniqueVtx := c\<rparr>)"
  by (simp add: sameFrame_def)

lemma idOf_setHandle:
  "p < length (handles s) \<Longrightarrow> id_uv h = idOf s p \<Longrightarrow> idOf (setHandle s p h) = idOf s"
  by (rule ext) (simp add: idOf_def nth_list_update)

lemma sameFrame_setHandle:
  "p < length (handles s) \<Longrightarrow> id_uv h = idOf s p \<Longrightarrow> sameFrame s (setHandle s p h)"
  by (simp add: sameFrame_def idOf_setHandle)

lemma stateStatus_frame: "sameFrame s s' \<Longrightarrow> stateStatus s' k = stateStatus s k"
  by (simp add: sameFrame_def stateStatus_def)

lemma ensureState_ok:
  assumes ok: "heapOK s" and p: "p < length (handles s)"
  shows "\<exists>s1 a. ensureState s p = (s1, Inr ()) \<and> heapOK s1 \<and> sameFrame s s1 \<and>
           v_uv (handles s1 ! p) = Some a \<and>
           authStatus s1 (idOf s p) = authStatus s (idOf s p)"
proof (cases "v_uv (handles s ! p)")
  case (Some a)
  then have "ensureState s p = (s, Inr ())"
    using p by (simp add: ensureState_def getHandle_def)
  with ok Some show ?thesis by simp
next
  case None
  let ?s1 = "setHandle (fst (newState s)) p ((handles s ! p)\<lparr>v_uv := Some (length (states s))\<rparr>)"
  have e: "ensureState s p = (?s1, Inr ())"
    using p None by (simp add: ensureState_def getHandle_def newState_def)
  have ok1: "heapOK ?s1" using ok p None by (rule heapOK_newState)
  have idf: "idOf ?s1 = idOf s"
    using p by (intro ext) (simp add: idOf_def nth_list_update)
  have fr: "sameFrame s ?s1"
    using p by (simp add: sameFrame_def idf)
  have v: "v_uv (handles ?s1 ! p) = Some (length (states s))" using p by simp
  have pc: "p \<notin> set (uniqueVtx s)"
    using heapOK_cache_latest [OF ok, of p] None by auto
  have cv: "\<forall>q \<in> set (uniqueVtx s). q < length (handles s)" using heapOK_cache_valid [OF ok] by blast
  have c1: "cached ?s1 k = cached s k" for k
    using cached_find [of ?s1 k] cached_find [of s k] cv idf by simp
  have "authStatus ?s1 k = authStatus s k" for k
  proof (cases "cached s k")
    case None
    then show ?thesis using c1 [of k] by (simp add: authStatus_def stateStatus_def)
  next
    case (Some q)
    from cached_SomeD [OF ok Some] have q: "q \<in> set (uniqueVtx s)" by simp
    then have qp: "q \<noteq> p" using pc by blast
    from heapOK_cache_latest [OF ok q] obtain a where a: "v_uv (handles s ! q) = Some a" by blast
    have ql: "q < length (handles s)" using heapOK_cache_valid [OF ok q] .
    have al: "a < length (states s)" using heapOK_state_valid [OF ok ql a] .
    have "deref ?s1 q = Inr (handles s ! q, a, states s ! a)"
      using ql qp a al by (simp add: deref_def getHandle_def getState_def nth_append)
    moreover have "deref s q = Inr (handles s ! q, a, states s ! a)"
      using deref_valid [OF ok ql a] .
    ultimately show ?thesis using c1 [of k] Some by (simp add: authStatus_def)
  qed
  with e ok1 fr v show ?thesis by blast
qed

lemma getHandle_valid [simp]: "p < length (handles s) \<Longrightarrow> getHandle s p = Some (handles s ! p)"
  by (simp add: getHandle_def)

lemma getState_valid [simp]: "a < length (states s) \<Longrightarrow> getState s a = Some (states s ! a)"
  by (simp add: getState_def)

lemma UniqueVertex_hit:
  assumes "p < length (handles s)" and "cached s (idOf s p) = Some q"
  shows "UniqueVertex s p = (s\<lparr>uniqueVtx := remove1 q (uniqueVtx s) @ [q]\<rparr>, Inr q)"
  using assms by (simp add: UniqueVertex_def idOf_def)

lemma UniqueVertex_miss_unfold:
  assumes "p < length (handles s)" and "cached s (idOf s p) = None"
  shows "UniqueVertex s p =
           (case uniqueVtx s of
              [] \<Rightarrow> (s\<lparr>uniqueVtx := [p]\<rparr>, Inr p)
            | e # rest \<Rightarrow>
                if length (uniqueVtx s) < cacheSize s
                then (s\<lparr>uniqueVtx := uniqueVtx s @ [p]\<rparr>, Inr p)
                else
                  (case Evict (s\<lparr>uniqueVtx := rest\<rparr>) e of
                     (s1, Inl err) \<Rightarrow> (s1, Inl err)
                   | (s1, Inr _) \<Rightarrow> (s1\<lparr>uniqueVtx := uniqueVtx s1 @ [p]\<rparr>, Inr p)))"
  using assms by (simp add: UniqueVertex_def idOf_def)

lemma UniqueVertex_missI:
  assumes "heapOK sx" and "sameFrame s sx" and "handles sx = handles s"
    and "length (states sx) = length (states s)"
    and "\<And>b. vtx (states sx ! b) = vtx (states s ! b)"
    and "idOf s p \<notin> idOf s ` set (uniqueVtx sx)"
    and "UniqueVertex s p = (sx\<lparr>uniqueVtx := uniqueVtx sx @ [p]\<rparr>, Inr p)"
  shows "\<exists>sx. heapOK sx \<and> sameFrame s sx \<and> handles sx = handles s \<and>
           length (states sx) = length (states s) \<and>
           (\<forall>b. vtx (states sx ! b) = vtx (states s ! b)) \<and>
           idOf s p \<notin> idOf s ` set (uniqueVtx sx) \<and>
           UniqueVertex s p = (sx\<lparr>uniqueVtx := uniqueVtx sx @ [p]\<rparr>, Inr p)"
  using assms by blast

lemma UniqueVertex_miss:
  assumes ok: "heapOK s" and p: "p < length (handles s)" and c: "cached s (idOf s p) = None"
  shows "\<exists>sx. heapOK sx \<and> sameFrame s sx \<and> handles sx = handles s \<and>
           length (states sx) = length (states s) \<and>
           (\<forall>b. vtx (states sx ! b) = vtx (states s ! b)) \<and>
           idOf s p \<notin> idOf s ` set (uniqueVtx sx) \<and>
           UniqueVertex s p = (sx\<lparr>uniqueVtx := uniqueVtx sx @ [p]\<rparr>, Inr p)"
proof -
  have fresh: "idOf s p \<notin> idOf s ` set (uniqueVtx s)"
    using cached_None [OF ok] c by simp
  note un = UniqueVertex_miss_unfold [OF p c]
  show ?thesis
  proof (cases "uniqueVtx s")
    case Nil
    have u: "UniqueVertex s p = (s\<lparr>uniqueVtx := uniqueVtx s @ [p]\<rparr>, Inr p)"
      unfolding un Nil by simp
    show ?thesis
      by (rule UniqueVertex_missI [OF ok sameFrame_refl refl refl refl fresh u])
  next
    case (Cons e rest)
    show ?thesis
    proof (cases "length (uniqueVtx s) < cacheSize s")
      case True
      have u: "UniqueVertex s p = (s\<lparr>uniqueVtx := uniqueVtx s @ [p]\<rparr>, Inr p)"
        unfolding un using True by (simp add: Cons)
      show ?thesis
        by (rule UniqueVertex_missI [OF ok sameFrame_refl refl refl refl fresh u])
    next
      case False
      from evict_state [OF ok Cons] obtain ae where
        el: "e < length (handles s)" and ae: "v_uv (handles s ! e) = Some ae" "ae < length (states s)"
        by blast
      let ?sx = "setState (s\<lparr>uniqueVtx := rest\<rparr>) ae ((states s ! ae)\<lparr>latest := False, parents := []\<rparr>)"
      note ev = Evict_eq [OF el ae, of rest]
      have okx: "heapOK ?sx" using ok Cons ae(1) by (rule heapOK_evict)
      have u: "UniqueVertex s p = (?sx\<lparr>uniqueVtx := uniqueVtx ?sx @ [p]\<rparr>, Inr p)"
        unfolding un using False by (simp add: Cons ev)
      have fr: "sameFrame s ?sx" by (simp add: sameFrame_def)
      have vt: "vtx (states ?sx ! b) = vtx (states s ! b)" for b
        using ae(2) by (cases "b = ae") simp_all
      have f2: "idOf s p \<notin> idOf s ` set (uniqueVtx ?sx)"
        using fresh Cons by simp
      have hx: "handles ?sx = handles s" and lx: "length (states ?sx) = length (states s)"
        by simp_all
      show ?thesis
        by (rule UniqueVertex_missI [OF okx fr hx lx vt f2 u])
    qed
  qed
qed

lemma refreshLatest_okI:
  assumes "refreshLatest s p = (s', Inr ())" and "heapOK s'" and "sameFrame s s'"
    and "v_uv (handles s' ! p) = Some a'" and "latest (states s' ! a')"
    and "status (states s' ! a') = k"
  shows "\<exists>s' a'. refreshLatest s p = (s', Inr ()) \<and> heapOK s' \<and> sameFrame s s' \<and>
           v_uv (handles s' ! p) = Some a' \<and> latest (states s' ! a') \<and>
           status (states s' ! a') = k"
  using assms by blast

lemma refreshLatest_ok:
  assumes ok: "heapOK s" and p: "p < length (handles s)" and v: "v_uv (handles s ! p) = Some a"
  shows "\<exists>s' a'. refreshLatest s p = (s', Inr ()) \<and> heapOK s' \<and> sameFrame s s' \<and>
           v_uv (handles s' ! p) = Some a' \<and> latest (states s' ! a') \<and>
           status (states s' ! a') = authStatus s (idOf s p)"
proof -
  have al: "a < length (states s)" using heapOK_state_valid [OF ok p v] .
  have d: "deref s p = Inr (handles s ! p, a, states s ! a)" using deref_valid [OF ok p v] .
  show ?thesis
  proof (cases "latest (states s ! a)")
    case True
    then have "refreshLatest s p = (s, Inr ())" using d by (simp add: refreshLatest_def)
    then show ?thesis
      using ok sameFrame_refl v True authStatus_latest [OF ok p v True, symmetric]
      by (rule refreshLatest_okI)
  next
    case stale: False
    show ?thesis
    proof (cases "cached s (idOf s p)")
      case (Some q)
      from cached_SomeD [OF ok Some] have q: "q \<in> set (uniqueVtx s)" and qid: "idOf s q = idOf s p"
        by simp_all
      have ql: "q < length (handles s)" using heapOK_cache_valid [OF ok q] .
      from heapOK_cache_latest [OF ok q] obtain aq where
        aq: "v_uv (handles s ! q) = Some aq" "latest (states s ! aq)" by blast
      have aql: "aq < length (states s)" using heapOK_state_valid [OF ok ql aq(1)] .
      have qp: "q \<noteq> p" using aq v stale by auto
      let ?s2 = "s\<lparr>uniqueVtx := remove1 q (uniqueVtx s) @ [q]\<rparr>"
      let ?s3 = "setHandle ?s2 p (handles s ! q)"
      have u: "UniqueVertex s p = (?s2, Inr q)" using UniqueVertex_hit [OF p Some] .
      have ok2: "heapOK ?s2" using ok q by (rule heapOK_touch)
      have q2: "q \<in> set (uniqueVtx ?s2)" by simp
      have ok3: "heapOK ?s3"
        using heapOK_copy [OF ok2, of p q] p q2 qid by simp
      have "id_uv (handles s ! q) = idOf ?s2 p" using qid by (simp add: idOf_def)
      then have "sameFrame ?s2 ?s3" using p by (intro sameFrame_setHandle) simp_all
      then have fr3: "sameFrame s ?s3" by (rule sameFrame_trans [OF sameFrame_cache])
      have v3: "v_uv (handles ?s3 ! p) = Some aq" using p aq(1) by simp
      have d3: "deref ?s3 p = Inr (handles s ! q, aq, states s ! aq)"
        using p aq(1) aql by (simp add: deref_def)
      let ?s4 = "setState ?s3 aq ((states s ! aq)\<lparr>vtx := vtx (states s ! a)\<rparr>)"
      have ok4: "heapOK ?s4" by (rule heapOK_setState [OF ok3]) simp
      have au: "authStatus s (idOf s p) = status (states s ! aq)"
        using authStatus_cached [OF ok Some] aq(1) by simp
      show ?thesis
      proof (cases "vtx (states s ! aq) = None")
        case True
        then have r: "refreshLatest s p = (?s4, Inr ())"
          using d stale u al qp ql d3 by (simp add: refreshLatest_def Let_def)
        have f4: "sameFrame s ?s4" using fr3 by (simp add: sameFrame_def)
        have v4: "v_uv (handles ?s4 ! p) = Some aq" using v3 by simp
        have l4: "latest (states ?s4 ! aq)" and s4: "status (states ?s4 ! aq) = authStatus s (idOf s p)"
          using aq(2) aql au by simp_all
        from r ok4 f4 v4 l4 s4 show ?thesis by (rule refreshLatest_okI)
      next
        case False
        then obtain sv where "vtx (states s ! aq) = Some sv" by blast
        then have r: "refreshLatest s p = (?s3, Inr ())"
          using d stale u al qp ql d3 by (simp add: refreshLatest_def Let_def)
        have l3: "latest (states ?s3 ! aq)" and s3: "status (states ?s3 ! aq) = authStatus s (idOf s p)"
          using aq(2) au by simp_all
        from r ok3 fr3 v3 l3 s3 show ?thesis by (rule refreshLatest_okI)
      qed
    next
      case None
      from UniqueVertex_miss [OF ok p None] obtain sx where
        okx: "heapOK sx" and frx: "sameFrame s sx" and hx: "handles sx = handles s"
        and lx: "length (states sx) = length (states s)"
        and vx: "\<And>b. vtx (states sx ! b) = vtx (states s ! b)"
        and fresh: "idOf s p \<notin> idOf s ` set (uniqueVtx sx)"
        and u: "UniqueVertex s p = (sx\<lparr>uniqueVtx := uniqueVtx sx @ [p]\<rparr>, Inr p)"
        by blast
      let ?s2 = "sx\<lparr>uniqueVtx := uniqueVtx sx @ [p]\<rparr>"
      let ?st = "(states sx ! a)\<lparr>status := stateStatus s (idOf s p), latest := True\<rparr>"
      let ?s3 = "setState ?s2 a ?st"
      have idx: "idOf sx = idOf s" using frx by (simp add: sameFrame_def)
      have px: "p < length (handles sx)" "v_uv (handles sx ! p) = Some a" using p v hx by simp_all
      have ok3: "heapOK ?s3"
      proof (rule heapOK_insert [OF okx px])
        show "idOf sx p \<notin> idOf sx ` set (uniqueVtx sx)" unfolding idx by (rule fresh)
        show "latest ?st" by simp
      qed
      have fr3: "sameFrame s ?s3" using frx by (simp add: sameFrame_def)
      have alx: "a < length (states sx)" using al lx by simp
      have d3: "deref ?s3 p = Inr (handles s ! p, a, ?st)"
        using p v hx alx by (simp add: deref_def)
      have ss: "stateStatus ?s2 (id_uv (handles s ! p)) = stateStatus s (idOf s p)"
        using frx by (simp add: stateStatus_def sameFrame_def idOf_def)
      have au: "authStatus s (idOf s p) = stateStatus s (idOf s p)"
        using None by (simp add: authStatus_def)
      let ?s4 = "setState ?s3 a (?st\<lparr>vtx := vtx (states sx ! a)\<rparr>)"
      have ok4: "heapOK ?s4" by (rule heapOK_setState [OF ok3]) (use alx in simp)
      show ?thesis
      proof (cases "vtx (states sx ! a) = None")
        case True
        then have r: "refreshLatest s p = (?s4, Inr ())"
          using d stale u alx ss d3 by (simp add: refreshLatest_def Let_def)
        have f4: "sameFrame s ?s4" using fr3 by (simp add: sameFrame_def)
        have v4: "v_uv (handles ?s4 ! p) = Some a" using v hx by simp
        have l4: "latest (states ?s4 ! a)" and s4: "status (states ?s4 ! a) = authStatus s (idOf s p)"
          using alx au by simp_all
        from r ok4 f4 v4 l4 s4 show ?thesis by (rule refreshLatest_okI)
      next
        case False
        then obtain sv where "vtx (states sx ! a) = Some sv" by blast
        then have r: "refreshLatest s p = (?s3, Inr ())"
          using d stale u alx ss d3 by (simp add: refreshLatest_def Let_def)
        have v3: "v_uv (handles ?s3 ! p) = Some a" using v hx by simp
        have l3: "latest (states ?s3 ! a)" and s3: "status (states ?s3 ! a) = authStatus s (idOf s p)"
          using alx au by simp_all
        from r ok3 fr3 v3 l3 s3 show ?thesis by (rule refreshLatest_okI)
      qed
    qed
  qed
qed

lemma sameFrame_length: "sameFrame s s' \<Longrightarrow> length (handles s') = length (handles s)"
  by (simp add: sameFrame_def)

lemma sameFrame_idOf: "sameFrame s s' \<Longrightarrow> idOf s' = idOf s"
  by (simp add: sameFrame_def)

lemma shallowRefresh_ok:
  assumes ok: "heapOK s" and p: "p < length (handles s)"
  shows "\<exists>s' a'. shallowRefresh s p = (s', Inr ()) \<and> heapOK s' \<and> sameFrame s s' \<and>
           v_uv (handles s' ! p) = Some a' \<and> latest (states s' ! a') \<and>
           status (states s' ! a') = authStatus s (idOf s p)"
proof -
  from ensureState_ok [OF ok p] obtain s1 a where
    e: "ensureState s p = (s1, Inr ())" and ok1: "heapOK s1" and fr1: "sameFrame s s1"
    and v1: "v_uv (handles s1 ! p) = Some a"
    and au1: "authStatus s1 (idOf s p) = authStatus s (idOf s p)"
    by blast
  have p1: "p < length (handles s1)" using p sameFrame_length [OF fr1] by simp
  from refreshLatest_ok [OF ok1 p1 v1] obtain s' a' where
    r: "refreshLatest s1 p = (s', Inr ())" and ok': "heapOK s'" and fr': "sameFrame s1 s'"
    and v': "v_uv (handles s' ! p) = Some a'" and l': "latest (states s' ! a')"
    and st': "status (states s' ! a') = authStatus s1 (idOf s1 p)"
    by blast
  have sr: "shallowRefresh s p = (s', Inr ())"
    by (simp add: shallowRefresh_def e r)
  have fr: "sameFrame s s'" using fr1 fr' by (rule sameFrame_trans)
  have "status (states s' ! a') = authStatus s (idOf s p)"
    using st' au1 sameFrame_idOf [OF fr1] by simp
  with sr ok' fr v' l' show ?thesis by blast
qed

lemma refresh_ok:
  assumes ok: "heapOK s" and p: "p < length (handles s)"
  shows "\<exists>s' a'. refresh s p = (s', Inr ()) \<and> heapOK s' \<and> sameFrame s s' \<and>
           v_uv (handles s' ! p) = Some a' \<and> latest (states s' ! a') \<and>
           status (states s' ! a') = authStatus s (idOf s p)"
proof -
  from shallowRefresh_ok [OF ok p] obtain s1 a where
    sr: "shallowRefresh s p = (s1, Inr ())" and ok1: "heapOK s1" and fr1: "sameFrame s s1"
    and v1: "v_uv (handles s1 ! p) = Some a" and l1: "latest (states s1 ! a)"
    and st1: "status (states s1 ! a) = authStatus s (idOf s p)"
    by blast
  have p1: "p < length (handles s1)" using p sameFrame_length [OF fr1] by simp
  have al: "a < length (states s1)" using heapOK_state_valid [OF ok1 p1 v1] .
  have d: "deref s1 p = Inr (handles s1 ! p, a, states s1 ! a)" using deref_valid [OF ok1 p1 v1] .
  show ?thesis
  proof (cases "vtx (states s1 ! a) = None \<and> Fetched (status (states s1 ! a))")
    case False
    then have "refresh s p = (s1, Inr ())"
      by (auto simp: refresh_def sr d)
    with ok1 fr1 v1 l1 st1 show ?thesis by blast
  next
    case True
    let ?s2 = "setState s1 a ((states s1 ! a)\<lparr>vtx := stateVertex s1 (id_uv (handles s1 ! p))\<rparr>)"
    have r: "refresh s p = (?s2, Inr ())"
      using True by (simp add: refresh_def sr d)
    have ok2: "heapOK ?s2" by (rule heapOK_setState [OF ok1]) simp
    have fr2: "sameFrame s ?s2" using fr1 by (simp add: sameFrame_def)
    have "v_uv (handles ?s2 ! p) = Some a" "latest (states ?s2 ! a)"
      "status (states ?s2 ! a) = authStatus s (idOf s p)"
      using v1 l1 st1 al by simp_all
    with r ok2 fr2 show ?thesis by blast
  qed
qed

lemma Status_ok:
  assumes ok: "heapOK s" and p: "p < length (handles s)"
  shows "\<exists>s' a. Status s p = (s', Inr (authStatus s (idOf s p))) \<and> heapOK s' \<and> sameFrame s s' \<and>
           authStatus s' (idOf s p) = authStatus s (idOf s p) \<and>
           v_uv (handles s' ! p) = Some a \<and> latest (states s' ! a) \<and>
           status (states s' ! a) = authStatus s (idOf s p)"
proof -
  from refresh_ok [OF ok p] obtain s' a where
    r: "refresh s p = (s', Inr ())" and ok': "heapOK s'" and fr: "sameFrame s s'"
    and v: "v_uv (handles s' ! p) = Some a" and l: "latest (states s' ! a)"
    and st: "status (states s' ! a) = authStatus s (idOf s p)"
    by blast
  have p': "p < length (handles s')" using p sameFrame_length [OF fr] by simp
  have d: "deref s' p = Inr (handles s' ! p, a, states s' ! a)" using deref_valid [OF ok' p' v] .
  have s: "Status s p = (s', Inr (authStatus s (idOf s p)))"
    by (simp add: Status_def r d st)
  have "authStatus s' (idOf s' p) = status (states s' ! a)"
    using authStatus_latest [OF ok' p' v l] .
  then have "authStatus s' (idOf s p) = authStatus s (idOf s p)"
    using st sameFrame_idOf [OF fr] by simp
  with s ok' fr v l st show ?thesis by blast
qed

lemma heapOK_noHandles: "noHandles s \<Longrightarrow> heapOK s"
  by (simp add: noHandles_def heapOK_def)

lemma heapOK_cong:
  assumes "handles s' = handles s" and "states s' = states s" and "uniqueVtx s' = uniqueVtx s"
  shows "heapOK s' = heapOK s"
proof -
  have "idOf s' = idOf s" using assms(1) by (intro ext) (simp add: idOf_def)
  then show ?thesis using assms by (simp add: heapOK_def)
qed

lemma heapOK_newHandle:
  assumes ok: "heapOK s"
  shows "heapOK (fst (newHandle s k))" (is "heapOK ?s'")
proof -
  have hs: "handles ?s' = handles s @ [\<lparr>id_uv = k, v_uv = None, time_uv = None\<rparr>]"
    and ss: "states ?s' = states s" and cs: "uniqueVtx ?s' = uniqueVtx s"
    by (simp_all add: newHandle_def)
  have old: "handles ?s' ! r = handles s ! r" if "r < length (handles s)" for r
    using that by (simp add: hs nth_append)
  have new: "v_uv (handles ?s' ! length (handles s)) = None" by (simp add: hs)
  have len: "length (handles ?s') = Suc (length (handles s))" by (simp add: hs)
  have cid: "idOf ?s' q = idOf s q" if "q \<in> set (uniqueVtx s)" for q
    using old [OF heapOK_cache_valid [OF ok that]] by (simp add: idOf_def)
  have vv: "r < length (handles s) \<and> v_uv (handles s ! r) = Some b"
    if "r < length (handles ?s')" "v_uv (handles ?s' ! r) = Some b" for r b
  proof (cases "r < length (handles s)")
    case True
    then show ?thesis using that old [OF True] by simp
  next
    case False
    then have "r = length (handles s)" using that(1) len by simp
    then show ?thesis using that(2) new by simp
  qed
  show ?thesis
  proof (rule heapOK_I)
    fix q assume "q \<in> set (uniqueVtx ?s')"
    then show "q < length (handles ?s')" using heapOK_cache_valid [OF ok, of q] by (simp add: cs len)
  next
    have m: "map (idOf ?s') (uniqueVtx s) = map (idOf s) (uniqueVtx s)"
      by (rule map_cong [OF refl]) (rule cid)
    show "distinct (map (idOf ?s') (uniqueVtx ?s'))"
      unfolding cs m using heapOK_distinct [OF ok] .
  next
    fix r b assume "r < length (handles ?s')" "v_uv (handles ?s' ! r) = Some b"
    from vv [OF this] show "b < length (states ?s')"
      unfolding ss using heapOK_state_valid [OF ok] by blast
  next
    fix q assume "q \<in> set (uniqueVtx ?s')"
    then have q: "q \<in> set (uniqueVtx s)" by (simp add: cs)
    show "\<exists>a. v_uv (handles ?s' ! q) = Some a \<and> latest (states ?s' ! a)"
      using heapOK_cache_latest [OF ok q] old [OF heapOK_cache_valid [OF ok q]] by (simp add: ss)
  next
    fix r b
    assume r: "r < length (handles ?s')" "v_uv (handles ?s' ! r) = Some b" and l: "latest (states ?s' ! b)"
    from vv [OF r] have rl: "r < length (handles s)" and vb: "v_uv (handles s ! r) = Some b" by simp_all
    from heapOK_latest_cached [OF ok rl vb] l obtain q where
      q: "q \<in> set (uniqueVtx s)" "idOf s q = idOf s r" "v_uv (handles s ! q) = Some b"
      by (auto simp: ss)
    have "idOf ?s' q = idOf ?s' r"
      using q(2) cid [OF q(1)] old [OF rl] by (simp add: idOf_def)
    moreover have "v_uv (handles ?s' ! q) = Some b"
      using q(3) old [OF heapOK_cache_valid [OF ok q(1)]] by simp
    ultimately show "\<exists>q \<in> set (uniqueVtx ?s'). idOf ?s' q = idOf ?s' r \<and> v_uv (handles ?s' ! q) = Some b"
      using q(1) by (auto simp: cs)
  next
    fix r r' b
    assume r: "r < length (handles ?s')" "v_uv (handles ?s' ! r) = Some b"
      and r': "r' < length (handles ?s')" "v_uv (handles ?s' ! r') = Some b"
    from vv [OF r] vv [OF r'] heapOK_same_id [OF ok, of r r' b]
    have "idOf s r = idOf s r'" by blast
    then show "idOf ?s' r = idOf ?s' r'"
      using vv [OF r] vv [OF r'] old by (simp add: idOf_def)
  qed
qed

lemma Status_invalid: "\<not> p < length (handles s) \<Longrightarrow> Status s p = (s, Inl errInvalidPointer)"
  by (simp add: Status_def refresh_def shallowRefresh_def ensureState_def getHandle_def)

lemma heapOK_Status: "heapOK s \<Longrightarrow> heapOK (fst (Status s p))"
proof (cases "p < length (handles s)")
  case True
  assume "heapOK s"
  from Status_ok [OF this True] show ?thesis by auto
next
  case False
  assume "heapOK s"
  then show ?thesis using Status_invalid [OF False] by simp
qed

lemma setStatus_invalid: "\<not> p < length (handles s) \<Longrightarrow> setStatus s p st = (s, Some errInvalidPointer)"
  by (simp add: setStatus_def shallowRefresh_def ensureState_def getHandle_def)

lemma heapOK_SetStatus: "heapOK (fst (SetStatus s k st)) = heapOK s"
  by (rule heapOK_cong) (simp_all add: SetStatus_def split: option.splits)

lemma heapOK_setStatus:
  assumes ok: "heapOK s"
  shows "heapOK (fst (setStatus s p st0))"
proof (cases "p < length (handles s)")
  case False
  then show ?thesis using ok setStatus_invalid [OF False] by simp
next
  case True
  from shallowRefresh_ok [OF ok True] obtain s1 a where
    sr: "shallowRefresh s p = (s1, Inr ())" and ok1: "heapOK s1" and fr1: "sameFrame s s1"
    and v1: "v_uv (handles s1 ! p) = Some a"
    by blast
  have p1: "p < length (handles s1)" using True sameFrame_length [OF fr1] by simp
  have d: "deref s1 p = Inr (handles s1 ! p, a, states s1 ! a)" using deref_valid [OF ok1 p1 v1] .
  show ?thesis
  proof (cases "status (states s1 ! a) = st0")
    case True
    then have "setStatus s p st0 = (s1, None)" by (simp add: setStatus_def sr d)
    with ok1 show ?thesis by simp
  next
    case False
    let ?s2 = "setState s1 a ((states s1 ! a)\<lparr>status := st0\<rparr>)"
    have "setStatus s p st0 = SetStatus ?s2 (id_uv (handles s1 ! p)) st0"
      using False by (simp add: setStatus_def sr d)
    moreover have "heapOK ?s2" by (rule heapOK_setState [OF ok1]) simp
    ultimately show ?thesis by (simp add: heapOK_SetStatus)
  qed
qed

lemma heapOK_evictOldest:
  assumes ok: "heapOK s"
  shows "heapOK (evictOldest s)"
proof (cases "uniqueVtx s")
  case Nil
  then show ?thesis using ok by (simp add: evictOldest_def)
next
  case (Cons e rest)
  from evict_state [OF ok Cons] obtain ae where
    el: "e < length (handles s)" and ae: "v_uv (handles s ! e) = Some ae" "ae < length (states s)"
    by blast
  have "evictOldest s =
      setState (s\<lparr>uniqueVtx := rest\<rparr>) ae ((states s ! ae)\<lparr>latest := False, parents := []\<rparr>)"
    by (simp add: evictOldest_def Cons Evict_eq [OF el ae])
  then show ?thesis using heapOK_evict [OF ok Cons ae(1)] by simp
qed

lemma heapOK_heapStep: "heapOK s \<Longrightarrow> heapOK (heapStep s c)"
  by (cases c) (simp_all add: heapOK_newHandle heapOK_Status heapOK_setStatus heapOK_evictOldest)

lemma heapOK_heapRun: "heapOK s \<Longrightarrow> heapOK (heapRun s cs)"
  unfolding heapRun_def by (induction cs arbitrary: s) (simp_all add: heapOK_heapStep)

text \<open>
  C6: in every state that a sequence of handle creations, \<open>Status\<close> and \<open>setStatus\<close>
  calls and cache evictions reaches from a serializer without handles, \<open>Status\<close> on any
  handle, stale or not, returns the current authoritative status of its vertex, and
  leaves the handle with a state that is the latest; \<open>Status\<close> on any other handle of
  the same vertex then returns the same status.
\<close>

theorem C6_handles_observe_authoritative_status:
  assumes init: "noHandles s0" and run: "s = heapRun s0 cs"
    and p: "p < length (handles s)" and q: "q < length (handles s)" and same: "idOf s q = idOf s p"
  shows "\<exists>s1 s2 a b.
           Status s p = (s1, Inr (authStatus s (idOf s p))) \<and>
           v_uv (handles s1 ! p) = Some a \<and> latest (states s1 ! a) \<and>
           Status s1 q = (s2, Inr (authStatus s (idOf s p))) \<and>
           v_uv (handles s2 ! q) = Some b \<and> latest (states s2 ! b)"
proof -
  have ok: "heapOK s" unfolding run using heapOK_noHandles [OF init] by (rule heapOK_heapRun)
  from Status_ok [OF ok p] obtain s1 a where
    s1: "Status s p = (s1, Inr (authStatus s (idOf s p)))" and ok1: "heapOK s1"
    and fr1: "sameFrame s s1" and au1: "authStatus s1 (idOf s p) = authStatus s (idOf s p)"
    and a: "v_uv (handles s1 ! p) = Some a" "latest (states s1 ! a)"
    by blast
  have q1: "q < length (handles s1)" using q sameFrame_length [OF fr1] by simp
  have id1: "idOf s1 q = idOf s p" using same sameFrame_idOf [OF fr1] by simp
  from Status_ok [OF ok1 q1] obtain s2 b where
    s2: "Status s1 q = (s2, Inr (authStatus s1 (idOf s1 q)))"
    and b: "v_uv (handles s2 ! q) = Some b" "latest (states s2 ! b)"
    by blast
  have "Status s1 q = (s2, Inr (authStatus s (idOf s p)))"
    using s2 id1 au1 by simp
  with s1 a b show ?thesis by blast
qed

lemma exampleRun:
  "heapRun exampleStore exampleCalls =
     \<lparr>handles = [\<lparr>id_uv = 7, v_uv = Some 0, time_uv = None\<rparr>,
                 \<lparr>id_uv = 8, v_uv = Some 1, time_uv = None\<rparr>,
                 \<lparr>id_uv = 7, v_uv = Some 2, time_uv = None\<rparr>],
      states = [\<lparr>latest = False, vtx = None, status = Processing, parents = [], txs = []\<rparr>,
                \<lparr>latest = False, vtx = None, status = Accepted, parents = [], txs = []\<rparr>,
                \<lparr>latest = True, vtx = None, status = Accepted, parents = [], txs = []\<rparr>],
      uniqueVtx = [2], cacheSize = 1,
      dbStatus = [8 \<mapsto> Accepted, 7 \<mapsto> Accepted], dbVertex = [], edge = {},
      written = [PutStatus 7 Accepted],
      dbFails = (\<lambda>w. None), ParseTx = (\<lambda>b. Inl (VMErr ''no parser'')),
      XChainMigrationTime = 0\<rparr>"
  by (simp add: heapRun_def exampleStore_def exampleCalls_def newHandle_def Status_def refresh_def
      shallowRefresh_def ensureState_def refreshLatest_def UniqueVertex_def cached_def Evict_def
      deref_def getHandle_def getState_def setState_def setHandle_def newState_def stateStatus_def
      setStatus_def SetStatus_def Fetched_def stateVertex_def Let_def)

text \<open>
  The witness: after the example calls, handle 0 of vertex 7 is stale (its latest bit
  was cleared by \<open>Evict\<close>) and its own state still says \<open>Processing\<close>, while the
  canonical handle 2 says \<open>Accepted\<close>. \<open>Status\<close> on handle 0 returns \<open>Accepted\<close>, and so
  does \<open>Status\<close> on handle 2.
\<close>

theorem C6_handles_observe_authoritative_status_witness:
  "noHandles exampleStore \<and>
   0 < length (handles (heapRun exampleStore exampleCalls)) \<and>
   2 < length (handles (heapRun exampleStore exampleCalls)) \<and>
   idOf (heapRun exampleStore exampleCalls) 2 = idOf (heapRun exampleStore exampleCalls) 0 \<and>
   v_uv (handles (heapRun exampleStore exampleCalls) ! 0) = Some 0 \<and>
   \<not> latest (states (heapRun exampleStore exampleCalls) ! 0) \<and>
   status (states (heapRun exampleStore exampleCalls) ! 0) = Processing \<and>
   authStatus (heapRun exampleStore exampleCalls) 7 = Accepted \<and>
   (\<exists>s1 s2 a b.
      Status (heapRun exampleStore exampleCalls) 0 = (s1, Inr Accepted) \<and>
      v_uv (handles s1 ! 0) = Some a \<and> latest (states s1 ! a) \<and>
      Status s1 2 = (s2, Inr Accepted) \<and>
      v_uv (handles s2 ! 2) = Some b \<and> latest (states s2 ! b))"
proof -
  let ?s = "heapRun exampleStore exampleCalls"
  have init: "noHandles exampleStore" by (simp add: noHandles_def exampleStore_def)
  have p: "0 < length (handles ?s)" and q: "2 < length (handles ?s)" by (simp_all add: exampleRun)
  have same: "idOf ?s 2 = idOf ?s 0" by (simp add: exampleRun idOf_def)
  have id0: "idOf ?s 0 = 7" by (simp add: exampleRun idOf_def)
  have stale: "v_uv (handles ?s ! 0) = Some 0" "\<not> latest (states ?s ! 0)"
    "status (states ?s ! 0) = Processing"
    by (simp_all add: exampleRun)
  have au: "authStatus ?s 7 = Accepted"
    by (simp add: exampleRun authStatus_def cached_def deref_def getHandle_def getState_def)
  from C6_handles_observe_authoritative_status [OF init refl p q same]
  have "\<exists>s1 s2 a b.
      Status ?s 0 = (s1, Inr Accepted) \<and>
      v_uv (handles s1 ! 0) = Some a \<and> latest (states s1 ! a) \<and>
      Status s1 2 = (s2, Inr Accepted) \<and>
      v_uv (handles s2 ! 2) = Some b \<and> latest (states s2 ! b)"
    unfolding id0 au .
  with init p q same stale au show ?thesis by blast
qed

subsection \<open>What the methods of a unique vertex keep\<close>

text \<open>
  For the termination of the search in \<open>Verify\<close>: the stateless vertices that the
  serializer holds, in the store or in a state, and the vertex IDs that it knows, those
  of its handles and those that a stateless vertex names as a parent.
\<close>

definition knownVertices :: "Serializer \<Rightarrow> StatelessVertex set" where
  "knownVertices s = snd ` set (dbVertex s) \<union> (\<Union>st \<in> set (states s). set_option (vtx st))"

definition knownIDs :: "Serializer \<Rightarrow> ID set" where
  "knownIDs s = id_uv ` set (handles s) \<union> (\<Union>sv \<in> knownVertices s. set (svParentIDs sv))"

text \<open>
  What every method of a unique vertex below keeps, except for the writes to the store:
  the store, the frontier and the parameters; the handles, of which there may be more
  afterwards, keep their IDs; no stateless vertex and no vertex ID comes from nowhere.
\<close>

definition extends :: "Serializer \<Rightarrow> Serializer \<Rightarrow> bool" where
  "extends s s' =
     (cacheSize s' = cacheSize s \<and> dbStatus s' = dbStatus s \<and> dbVertex s' = dbVertex s \<and>
      edge s' = edge s \<and> written s' = written s \<and> dbFails s' = dbFails s \<and>
      ParseTx s' = ParseTx s \<and> XChainMigrationTime s' = XChainMigrationTime s \<and>
      length (handles s) \<le> length (handles s') \<and>
      (\<forall>r < length (handles s). id_uv (handles s' ! r) = id_uv (handles s ! r)) \<and>
      knownVertices s' \<subseteq> knownVertices s \<and>
      id_uv ` set (handles s') \<subseteq> knownIDs s)"

lemma finite_knownIDs: "finite (knownIDs s)"
  by (simp add: knownIDs_def knownVertices_def)

lemma extends_refl [simp]: "extends s s"
  by (auto simp: extends_def knownIDs_def)

lemma extends_knownIDs: "extends s s' \<Longrightarrow> knownIDs s' \<subseteq> knownIDs s"
  unfolding extends_def knownIDs_def by blast

lemma extends_trans:
  assumes a: "extends s s'" and b: "extends s' s''"
  shows "extends s s''"
proof -
  have "id_uv ` set (handles s'') \<subseteq> knownIDs s'" using b by (simp add: extends_def)
  then have ids: "id_uv ` set (handles s'') \<subseteq> knownIDs s" using extends_knownIDs [OF a] by blast
  have kv: "knownVertices s'' \<subseteq> knownVertices s" using a b unfolding extends_def by blast
  have len: "length (handles s) \<le> length (handles s'')" using a b by (simp add: extends_def)
  have keep: "\<forall>r < length (handles s). id_uv (handles s'' ! r) = id_uv (handles s ! r)"
    using a b by (simp add: extends_def)
  have rest: "cacheSize s'' = cacheSize s \<and> dbStatus s'' = dbStatus s \<and> dbVertex s'' = dbVertex s \<and>
      edge s'' = edge s \<and> written s'' = written s \<and> dbFails s'' = dbFails s \<and>
      ParseTx s'' = ParseTx s \<and> XChainMigrationTime s'' = XChainMigrationTime s"
    using a b by (simp add: extends_def)
  from rest len keep kv ids show ?thesis unfolding extends_def by blast
qed

lemma getHandle_SomeD: "getHandle s p = Some h \<Longrightarrow> p < length (handles s) \<and> h = handles s ! p"
  by (auto simp: getHandle_def split: if_splits)

lemma getState_SomeD: "getState s a = Some st \<Longrightarrow> a < length (states s) \<and> st = states s ! a"
  by (auto simp: getState_def split: if_splits)

lemma derefD:
  "deref s p = Inr (h, a, st) \<Longrightarrow>
   p < length (handles s) \<and> h = handles s ! p \<and> v_uv h = Some a \<and>
   a < length (states s) \<and> st = states s ! a"
  by (auto simp: deref_def dest: getHandle_SomeD getState_SomeD split: option.splits)

lemma knownVertices_state:
  "a < length (states s) \<Longrightarrow> set_option (vtx (states s ! a)) \<subseteq> knownVertices s"
  by (auto simp: knownVertices_def)

lemma knownVertices_setState:
  "set_option (vtx st) \<subseteq> knownVertices s \<Longrightarrow> knownVertices (setState s a st) \<subseteq> knownVertices s"
  unfolding knownVertices_def using set_update_subset_insert [of "states s" a st] by auto

lemma extends_setState:
  assumes "set_option (vtx st) \<subseteq> knownVertices s"
  shows "extends s (setState s a st)"
  using knownVertices_setState [OF assms]
  by (auto simp: extends_def knownIDs_def)

lemma extends_setHandle:
  assumes "p < length (handles s)" and "id_uv h = id_uv (handles s ! p)"
  shows "extends s (setHandle s p h)"
proof -
  have "id_uv ` set ((handles s)[p := h]) \<subseteq> id_uv ` set (handles s)"
    using set_update_subset_insert [of "handles s" p h] assms by auto
  moreover have "knownVertices (setHandle s p h) = knownVertices s"
    by (simp add: knownVertices_def)
  moreover have "\<forall>r < length (handles s). id_uv ((handles s)[p := h] ! r) = id_uv (handles s ! r)"
    using assms by (simp add: nth_list_update)
  ultimately show ?thesis
    by (auto simp: extends_def knownIDs_def)
qed

lemma extends_cache: "extends s (s\<lparr>uniqueVtx := c\<rparr>)"
  by (auto simp: extends_def knownIDs_def knownVertices_def)

lemma extends_newState: "extends s (fst (newState s))"
  by (auto simp: extends_def knownIDs_def knownVertices_def)

lemma extends_newHandle:
  assumes "k \<in> knownIDs s"
  shows "extends s (fst (newHandle s k))"
  using assms
  by (auto simp: extends_def newHandle_def knownIDs_def knownVertices_def nth_append)

lemma extends_Evict: "Evict s p = (s', r) \<Longrightarrow> extends s s'"
proof -
  assume e: "Evict s p = (s', r)"
  show ?thesis
  proof (cases "getHandle s p")
    case None
    then show ?thesis using e by (simp add: Evict_def)
  next
    case (Some h)
    show ?thesis
    proof (cases "v_uv h")
      case None
      then show ?thesis using e Some by (simp add: Evict_def)
    next
      case va: (Some a)
      show ?thesis
      proof (cases "getState s a")
        case None
        then show ?thesis using e Some va by (simp add: Evict_def)
      next
        case (Some st)
        from getState_SomeD [OF Some] have a: "a < length (states s)" "st = states s ! a" by simp_all
        have "set_option (vtx (st\<lparr>latest := False, parents := []\<rparr>)) \<subseteq> knownVertices s"
          using knownVertices_state [OF a(1)] a(2) by simp
        then have "extends s (setState s a (st\<lparr>latest := False, parents := []\<rparr>))"
          by (rule extends_setState)
        then show ?thesis using e \<open>getHandle s p = Some h\<close> va Some by (simp add: Evict_def)
      qed
    qed
  qed
qed

lemma Evict_frame:
  assumes e: "Evict s p = (s', r)"
  shows "handles s' = handles s \<and> uniqueVtx s' = uniqueVtx s \<and>
         length (states s') = length (states s) \<and>
         (\<forall>b. vtx (states s' ! b) = vtx (states s ! b)) \<and>
         (\<forall>b. status (states s' ! b) = status (states s ! b))"
proof (cases "getHandle s p")
  case None
  then have "s' = s" using e by (simp add: Evict_def)
  then show ?thesis by simp
next
  case (Some h)
  show ?thesis
  proof (cases "v_uv h")
    case None
    then have "s' = s" using e Some by (simp add: Evict_def)
    then show ?thesis by simp
  next
    case va: (Some a)
    show ?thesis
    proof (cases "getState s a")
      case None
      then have "s' = s" using e Some va by (simp add: Evict_def)
      then show ?thesis by simp
    next
      case st: (Some st)
      from getState_SomeD [OF st] have a: "a < length (states s)" "st = states s ! a" by simp_all
      have s': "s' = setState s a (st\<lparr>latest := False, parents := []\<rparr>)"
        using e Some va st by (simp add: Evict_def)
      have "vtx (((states s)[a := st\<lparr>latest := False, parents := []\<rparr>]) ! b) = vtx (states s ! b)"
        "status (((states s)[a := st\<lparr>latest := False, parents := []\<rparr>]) ! b) = status (states s ! b)"
        for b using a by (cases "b = a"; simp)+
      then show ?thesis unfolding s' by simp
    qed
  qed
qed

lemma cachedD:
  assumes "cached s k = Some q"
  shows "q < length (handles s) \<and> id_uv (handles s ! q) = k"
proof -
  from find_SomeD [OF assms [unfolded cached_def]]
  have "case getHandle s q of None \<Rightarrow> False | Some h \<Rightarrow> id_uv h = k" by simp
  then show ?thesis by (auto simp: getHandle_def split: if_splits)
qed

lemma UniqueVertex_result:
  assumes u: "UniqueVertex s p = (s', r)"
  shows "extends s s' \<and> handles s' = handles s \<and> length (states s') = length (states s) \<and>
         (\<forall>b. vtx (states s' ! b) = vtx (states s ! b)) \<and>
         (\<forall>l. r = Inr l \<longrightarrow> l < length (handles s) \<and> p < length (handles s) \<and>
                id_uv (handles s ! l) = id_uv (handles s ! p))"
proof (cases "getHandle s p")
  case None
  then show ?thesis using u by (auto simp: UniqueVertex_def)
next
  case (Some h)
  from getHandle_SomeD [OF Some] have p: "p < length (handles s)" and h: "h = handles s ! p"
    by simp_all
  show ?thesis
  proof (cases "cached s (id_uv h)")
    case cq: (Some q)
    from cachedD [OF cq] have "q < length (handles s)" "id_uv (handles s ! q) = id_uv h" by simp_all
    moreover have "s' = s\<lparr>uniqueVtx := remove1 q (uniqueVtx s) @ [q]\<rparr>" "r = Inr q"
      using u Some cq by (simp_all add: UniqueVertex_def)
    ultimately show ?thesis using p h extends_cache [of s] by simp
  next
    case None
    show ?thesis
    proof (cases "uniqueVtx s")
      case Nil
      then have "s' = s\<lparr>uniqueVtx := [p]\<rparr>" "r = Inr p"
        using u Some None by (simp_all add: UniqueVertex_def)
      then show ?thesis using p extends_cache [of s] by simp
    next
      case (Cons e rest)
      show ?thesis
      proof (cases "length (uniqueVtx s) < cacheSize s")
        case True
        then have "s' = s\<lparr>uniqueVtx := uniqueVtx s @ [p]\<rparr>" "r = Inr p"
          using u Some None Cons by (simp_all add: UniqueVertex_def)
        then show ?thesis using p extends_cache [of s] by simp
      next
        case False
        obtain s1 r1 where ev: "Evict (s\<lparr>uniqueVtx := rest\<rparr>) e = (s1, r1)"
          by (cases "Evict (s\<lparr>uniqueVtx := rest\<rparr>) e") blast
        have ex1: "extends s s1"
          using extends_trans [OF extends_cache extends_Evict [OF ev]] .
        have frame1: "handles s1 = handles s \<and> length (states s1) = length (states s) \<and>
            (\<forall>b. vtx (states s1 ! b) = vtx (states s ! b))"
          using Evict_frame [OF ev] by simp
        show ?thesis
        proof (cases r1)
          case (Inl err)
          then have "s' = s1" "r = Inl err"
            using u Some None Cons False ev by (simp_all add: UniqueVertex_def)
          then show ?thesis using ex1 frame1 by simp
        next
          case (Inr x)
          then have "s' = s1\<lparr>uniqueVtx := uniqueVtx s1 @ [p]\<rparr>" "r = Inr p"
            using u Some None Cons False ev by (simp_all add: UniqueVertex_def)
          then show ?thesis
            using extends_trans [OF ex1 extends_cache] frame1 p by simp
        qed
      qed
    qed
  qed
qed

lemma extends_ensureState: "ensureState s p = (s', r) \<Longrightarrow> extends s s'"
proof -
  assume e: "ensureState s p = (s', r)"
  show ?thesis
  proof (cases "getHandle s p")
    case None
    then show ?thesis using e by (simp add: ensureState_def)
  next
    case (Some h)
    from getHandle_SomeD [OF Some] have p: "p < length (handles s)" and h: "h = handles s ! p"
      by simp_all
    show ?thesis
    proof (cases "v_uv h")
      case (Some a)
      then show ?thesis using e \<open>getHandle s p = Some h\<close> by (simp add: ensureState_def)
    next
      case None
      have s': "s' = setHandle (fst (newState s)) p (h\<lparr>v_uv := Some (length (states s))\<rparr>)"
        using e \<open>getHandle s p = Some h\<close> None by (simp add: ensureState_def newState_def)
      have "extends (fst (newState s)) (setHandle (fst (newState s)) p (h\<lparr>v_uv := Some (length (states s))\<rparr>))"
        using p h by (intro extends_setHandle) simp_all
      then show ?thesis unfolding s' by (rule extends_trans [OF extends_newState])
    qed
  qed
qed

lemma extends_refreshLatest: "refreshLatest s p = (s', r) \<Longrightarrow> extends s s'"
proof -
  assume e: "refreshLatest s p = (s', r)"
  show ?thesis
  proof (cases "deref s p")
    case (Inl err)
    then show ?thesis using e by (simp add: refreshLatest_def)
  next
    case (Inr x)
    then obtain h a st where d: "deref s p = Inr (h, a, st)" by (cases x) auto
    from derefD [OF d] have p: "p < length (handles s)" and h: "h = handles s ! p"
      and a: "a < length (states s)" and st: "st = states s ! a"
      by simp_all
    show ?thesis
    proof (cases "latest st")
      case True
      then show ?thesis using e d by (simp add: refreshLatest_def)
    next
      case stale: False
      obtain s2 r2 where u: "UniqueVertex s p = (s2, r2)" by (cases "UniqueVertex s p") blast
      from UniqueVertex_result [OF u] have ex2: "extends s s2" and h2: "handles s2 = handles s"
        and l2: "length (states s2) = length (states s)"
        and v2: "\<And>b. vtx (states s2 ! b) = vtx (states s ! b)"
        and lr: "\<And>l. r2 = Inr l \<Longrightarrow> l < length (handles s) \<and> id_uv (handles s ! l) = id_uv (handles s ! p)"
        by simp_all
      show ?thesis
      proof (cases r2)
        case (Inl err)
        then show ?thesis using e d stale u ex2 by (simp add: refreshLatest_def)
      next
        case (Inr l)
        have a2: "a < length (states s2)" using a l2 by simp
        let ?st2 = "states s2 ! a"
        let ?s3 = "if l = p
                   then setState s2 a (?st2\<lparr>status := stateStatus s2 (id_uv h), latest := True\<rparr>)
                   else (case getHandle s2 l of None \<Rightarrow> s2 | Some hl \<Rightarrow> setHandle s2 p hl)"
        have ex3: "extends s2 ?s3"
        proof (cases "l = p")
          case True
          have "set_option (vtx (?st2\<lparr>status := stateStatus s2 (id_uv h), latest := True\<rparr>))
                  \<subseteq> knownVertices s2"
            using knownVertices_state [OF a2] by simp
          then show ?thesis using True by (simp add: extends_setState)
        next
          case False
          from lr [OF Inr] have ll: "l < length (handles s2)"
            and lid: "id_uv (handles s2 ! l) = id_uv (handles s2 ! p)"
            using h2 by simp_all
          have "extends s2 (setHandle s2 p (handles s2 ! l))"
            using p h2 lid by (intro extends_setHandle) simp_all
          then show ?thesis using False ll by simp
        qed
        have l3: "length (states ?s3) = length (states s2)"
          by (simp split: option.splits)
        have v3: "knownVertices ?s3 \<subseteq> knownVertices s2"
          using ex3 by (simp add: extends_def)
        have prev: "set_option (vtx ?st2) \<subseteq> knownVertices ?s3"
        proof -
          have "states ?s3 ! a = ?st2\<lparr>status := stateStatus s2 (id_uv h), latest := True\<rparr> \<or>
                states ?s3 = states s2"
            using a2 by (auto split: option.splits)
          then have "vtx (states ?s3 ! a) = vtx ?st2" by auto
          moreover have "a < length (states ?s3)" using a2 l3 by simp
          ultimately show ?thesis using knownVertices_state [of a ?s3] by simp
        qed
        show ?thesis
        proof (cases "deref ?s3 p")
          case (Inl err)
          then have "s' = ?s3"
            using e d stale u Inr a2 by (simp add: refreshLatest_def Let_def)
          then show ?thesis using extends_trans [OF ex2 ex3] by simp
        next
          case dr: (Inr y)
          then obtain h3 a3 st3 where d3: "deref ?s3 p = Inr (h3, a3, st3)" by (cases y) auto
          show ?thesis
          proof (cases "vtx st3 = None")
            case False
            then obtain sv where "vtx st3 = Some sv" by blast
            then have "s' = ?s3"
              using e d stale u Inr a2 d3 by (simp add: refreshLatest_def Let_def)
            then show ?thesis using extends_trans [OF ex2 ex3] by simp
          next
            case True
            then have s': "s' = setState ?s3 a3 (st3\<lparr>vtx := vtx ?st2\<rparr>)"
              using e d stale u Inr a2 d3 by (simp add: refreshLatest_def Let_def)
            have "extends ?s3 (setState ?s3 a3 (st3\<lparr>vtx := vtx ?st2\<rparr>))"
              using prev by (intro extends_setState) simp
            then show ?thesis
              unfolding s' using extends_trans [OF ex2 ex3] extends_trans by blast
          qed
        qed
      qed
    qed
  qed
qed

lemma extends_shallowRefresh: "shallowRefresh s p = (s', r) \<Longrightarrow> extends s s'"
proof -
  assume e: "shallowRefresh s p = (s', r)"
  obtain s1 r1 where en: "ensureState s p = (s1, r1)" by (cases "ensureState s p") blast
  show ?thesis
  proof (cases r1)
    case (Inl err)
    then show ?thesis using e en extends_ensureState [OF en] by (simp add: shallowRefresh_def)
  next
    case (Inr x)
    then have "refreshLatest s1 p = (s', r)" using e en by (simp add: shallowRefresh_def)
    from extends_trans [OF extends_ensureState [OF en] extends_refreshLatest [OF this]]
    show ?thesis .
  qed
qed

lemma stateVertex_known: "set_option (stateVertex s k) \<subseteq> knownVertices s"
  by (auto simp: stateVertex_def knownVertices_def dest!: map_of_SomeD intro: rev_image_eqI)

lemma extends_refresh: "refresh s p = (s', r) \<Longrightarrow> extends s s'"
proof -
  assume e: "refresh s p = (s', r)"
  obtain s1 r1 where sr: "shallowRefresh s p = (s1, r1)" by (cases "shallowRefresh s p") blast
  note ex1 = extends_shallowRefresh [OF sr]
  show ?thesis
  proof (cases r1)
    case (Inl err)
    then show ?thesis using e sr ex1 by (simp add: refresh_def)
  next
    case (Inr x)
    show ?thesis
    proof (cases "deref s1 p")
      case (Inl err)
      then show ?thesis using e sr Inr ex1 by (simp add: refresh_def)
    next
      case dr: (Inr y)
      then obtain h a st where d: "deref s1 p = Inr (h, a, st)" by (cases y) auto
      show ?thesis
      proof (cases "vtx st = None \<and> Fetched (status st)")
        case False
        then have "s' = s1" using e sr Inr d by (auto simp: refresh_def)
        then show ?thesis using ex1 by simp
      next
        case True
        then have s': "s' = setState s1 a (st\<lparr>vtx := stateVertex s1 (id_uv h)\<rparr>)"
          using e sr Inr d by (simp add: refresh_def)
        have "extends s1 (setState s1 a (st\<lparr>vtx := stateVertex s1 (id_uv h)\<rparr>))"
          using stateVertex_known by (intro extends_setState) simp
        then show ?thesis unfolding s' by (rule extends_trans [OF ex1])
      qed
    qed
  qed
qed

lemma extends_Status: "Status s p = (s', r) \<Longrightarrow> extends s s'"
proof -
  assume e: "Status s p = (s', r)"
  obtain s1 r1 where rf: "refresh s p = (s1, r1)" by (cases "refresh s p") blast
  have "s' = s1" using e rf by (cases r1) (auto simp: Status_def split: sum.splits)
  then show ?thesis using extends_refresh [OF rf] by simp
qed

lemma newHandle_frame:
  "states (fst (newHandle s k)) = states s \<and> dbVertex (fst (newHandle s k)) = dbVertex s \<and>
   knownVertices (fst (newHandle s k)) = knownVertices s"
  by (simp add: newHandle_def knownVertices_def)

lemma extends_newHandles:
  assumes "set ks \<subseteq> (\<Union>sv \<in> knownVertices s. set (svParentIDs sv))"
    and "newHandles s ks = (s', ps)"
  shows "extends s s' \<and> states s' = states s \<and> knownVertices s' = knownVertices s"
  using assms
proof (induction ks arbitrary: s s' ps)
  case Nil
  then show ?case by simp
next
  case (Cons k ks)
  let ?s1 = "fst (newHandle s k)"
  obtain s2 qs where n: "newHandles ?s1 ks = (s2, qs)" by (cases "newHandles ?s1 ks") blast
  have s': "s' = s2"
    using Cons.prems(2) n by (simp add: newHandle_def split: prod.splits)
  have k: "k \<in> knownIDs s" using Cons.prems(1) by (auto simp: knownIDs_def)
  have ex1: "extends s ?s1" using k by (rule extends_newHandle)
  have "set ks \<subseteq> (\<Union>sv \<in> knownVertices ?s1. set (svParentIDs sv))"
    using Cons.prems(1) newHandle_frame [of s k] by simp
  from Cons.IH [OF this n] have "extends ?s1 s2" "states s2 = states ?s1"
    "knownVertices s2 = knownVertices ?s1" by simp_all
  then show ?case
    unfolding s' using extends_trans [OF ex1] newHandle_frame [of s k] by simp
qed

lemma extends_Parents: "Parents s p = (s', r) \<Longrightarrow> extends s s'"
proof -
  assume e: "Parents s p = (s', r)"
  obtain s1 r1 where rf: "refresh s p = (s1, r1)" by (cases "refresh s p") blast
  note ex1 = extends_refresh [OF rf]
  show ?thesis
  proof (cases r1)
    case (Inl err)
    then show ?thesis using e rf ex1 by (simp add: Parents_def)
  next
    case (Inr x)
    show ?thesis
    proof (cases "deref s1 p")
      case (Inl err)
      then show ?thesis using e rf Inr ex1 by (simp add: Parents_def)
    next
      case dr: (Inr y)
      then obtain h a st where d: "deref s1 p = Inr (h, a, st)" by (cases y) auto
      from derefD [OF d] have a: "a < length (states s1)" and st: "st = states s1 ! a" by simp_all
      show ?thesis
      proof (cases "vtx st")
        case None
        then show ?thesis using e rf Inr d ex1 by (simp add: Parents_def)
      next
        case (Some sv)
        have svk: "sv \<in> knownVertices s1"
          using knownVertices_state [OF a] st Some by simp
        show ?thesis
        proof (cases "length (parents st) \<noteq> length (svParentIDs sv)")
          case False
          then show ?thesis using e rf Inr d Some ex1 by (simp add: Parents_def)
        next
          case True
          obtain s2 ps where n: "newHandles s1 (svParentIDs sv) = (s2, ps)"
            by (cases "newHandles s1 (svParentIDs sv)") blast
          have "set (svParentIDs sv) \<subseteq> (\<Union>sv \<in> knownVertices s1. set (svParentIDs sv))"
            using svk by blast
          from extends_newHandles [OF this n] have ex2: "extends s1 s2"
            and st2: "states s2 = states s1" and kv2: "knownVertices s2 = knownVertices s1"
            by simp_all
          have s': "s' = setState s2 a (st\<lparr>parents := ps\<rparr>)"
            using e rf Inr d Some True n by (simp add: Parents_def)
          have "set_option (vtx (st\<lparr>parents := ps\<rparr>)) \<subseteq> knownVertices s2"
            using svk Some kv2 by simp
          then have "extends s2 (setState s2 a (st\<lparr>parents := ps\<rparr>))" by (rule extends_setState)
          then show ?thesis
            unfolding s' using extends_trans [OF ex1 ex2] extends_trans by blast
        qed
      qed
    qed
  qed
qed

lemma extends_Txs: "Txs s p = (s', r) \<Longrightarrow> extends s s'"
proof -
  assume e: "Txs s p = (s', r)"
  obtain s1 r1 where rf: "refresh s p = (s1, r1)" by (cases "refresh s p") blast
  note ex1 = extends_refresh [OF rf]
  show ?thesis
  proof (cases r1)
    case (Inl err)
    then show ?thesis using e rf ex1 by (simp add: Txs_def)
  next
    case (Inr x)
    show ?thesis
    proof (cases "deref s1 p")
      case (Inl err)
      then show ?thesis using e rf Inr ex1 by (simp add: Txs_def)
    next
      case dr: (Inr y)
      then obtain h a st where d: "deref s1 p = Inr (h, a, st)" by (cases y) auto
      from derefD [OF d] have a: "a < length (states s1)" and st: "st = states s1 ! a" by simp_all
      show ?thesis
      proof (cases "vtx st")
        case None
        then show ?thesis using e rf Inr d ex1 by (simp add: Txs_def)
      next
        case (Some sv)
        have svk: "sv \<in> knownVertices s1"
          using knownVertices_state [OF a] st Some by simp
        show ?thesis
        proof (cases "length (svTxs sv) \<noteq> length (txs st)")
          case False
          then show ?thesis using e rf Inr d Some ex1 by (simp add: Txs_def)
        next
          case True
          obtain ts er where ps: "parseTxs (ParseTx s1) (svTxs sv) = (ts, er)"
            by (cases "parseTxs (ParseTx s1) (svTxs sv)") blast
          have s': "s' = setState s1 a (st\<lparr>txs := ts\<rparr>)"
            using e rf Inr d Some True ps by (cases er) (simp_all add: Txs_def)
          have "set_option (vtx (st\<lparr>txs := ts\<rparr>)) \<subseteq> knownVertices s1"
            using svk Some by simp
          then have "extends s1 (setState s1 a (st\<lparr>txs := ts\<rparr>))" by (rule extends_setState)
          then show ?thesis unfolding s' by (rule extends_trans [OF ex1])
        qed
      qed
    qed
  qed
qed

text \<open>A method that got hold of a handle's state was called on a handle.\<close>

lemma ensureState_valid: "ensureState s p = (s', Inr x) \<Longrightarrow> p < length (handles s)"
  by (auto simp: ensureState_def getHandle_def split: if_splits)

lemma shallowRefresh_valid: "shallowRefresh s p = (s', Inr x) \<Longrightarrow> p < length (handles s)"
  by (cases "ensureState s p")
     (auto simp: shallowRefresh_def dest: ensureState_valid split: sum.splits)

lemma refresh_valid: "refresh s p = (s', Inr x) \<Longrightarrow> p < length (handles s)"
  by (cases "shallowRefresh s p")
     (auto simp: refresh_def dest: shallowRefresh_valid split: sum.splits)

lemma Status_valid: "Status s p = (s', Inr x) \<Longrightarrow> p < length (handles s)"
  by (cases "refresh s p")
     (auto simp: Status_def dest: refresh_valid split: sum.splits)

subsection \<open>Accepting a vertex\<close>




lemma extends_dbFails: "extends s s' \<Longrightarrow> dbFails s' = dbFails s"
  by (simp add: extends_def)

lemma extends_id:
  "extends s s' \<Longrightarrow> p < length (handles s) \<Longrightarrow> id_uv (handles s' ! p) = id_uv (handles s ! p)"
  by (simp add: extends_def)

lemma extends_ID_uv:
  assumes "extends s s'" and "p < length (handles s)"
  shows "ID_uv s' p = ID_uv s p"
proof -
  have "p < length (handles s')" using assms by (simp add: extends_def)
  then show ?thesis using assms by (simp add: ID_uv_def extends_id)
qed

lemma SetStatus_cases:
  "(SetStatus s k st = (s, Some err) \<and> dbFails s (PutStatus k st) = Some err) \<or>
   (SetStatus s k st =
      (s\<lparr>dbStatus := (dbStatus s)(k \<mapsto> st), written := written s @ [PutStatus k st]\<rparr>, None) \<and>
    dbFails s (PutStatus k st) = None)"
  if "dbFails s (PutStatus k st) = None \<or> dbFails s (PutStatus k st) = Some err"
  using that by (auto simp: SetStatus_def)















subsection \<open>Verifying a vertex\<close>

text \<open>
  Modelled from the spec: \<open>Serializer.getUniqueVertex\<close>, which is not among the sources.
  A handle of the vertex ID is made and its status is read, through the cache and the
  store (sections 4.F and 4.H of the spec); a vertex of which nothing is known, whose
  status is \<open>Unknown\<close>, is an error.
\<close>

definition getUniqueVertex :: "Serializer \<Rightarrow> ID \<Rightarrow> nat result" where
  "getUniqueVertex s k =
     (let (s1, q) = newHandle s k in
      case Status s1 q of
        (s2, Inl err) \<Rightarrow> (s2, Inl err)
      | (s2, Inr st) \<Rightarrow> if st = Unknown then (s2, Inl errUnknownVertex) else (s2, Inr q))"

text \<open>
  The first loop of \<open>Verify\<close>, \<open>for id := range acceptedEdges\<close>, over the IDs of the
  accepted frontier in the order \<open>ks\<close> in which \<open>range\<close> visits them: a vertex of the
  frontier that cannot be loaded is an error, and so is one that is a stop vertex.
  \<open>edgeVtx.v.vtx.StopVertex()\<close> on a state without a stateless vertex is a panic.
\<close>

fun edgeLoop :: "Serializer \<Rightarrow> ID list \<Rightarrow> Serializer \<times> error option" where
  "edgeLoop s [] = (s, None)"
| "edgeLoop s (k # ks) =
     (case getUniqueVertex s k of
        (s1, Inl err) \<Rightarrow> (s1, Some err)
      | (s1, Inr q) \<Rightarrow>
          (case deref s1 q of
             Inl err \<Rightarrow> (s1, Some err)
           | Inr (h, a, st) \<Rightarrow>
               (case vtx st of
                  None \<Rightarrow> (s1, Some errNilPointer)
                | Some sv \<Rightarrow>
                    if svStopVertex sv then (s1, Some errStopVertexAlreadyAccepted)
                    else edgeLoop s1 ks)))"

text \<open>
  The loop over the transactions of a vertex in the search: the ID of every transaction
  joins the transitive paths, the IDs of its dependencies that are not accepted join the
  dependencies. A nil entry of the slice is a panic.
\<close>

fun txLoop :: "Tx option list \<Rightarrow> ID set \<Rightarrow> ID set \<Rightarrow> error + (ID set \<times> ID set)" where
  "txLoop [] tp deps = Inr (tp, deps)"
| "txLoop (None # ts) tp deps = Inl errNilPointer"
| "txLoop (Some tx # ts) tp deps =
     (case txDependencies tx of
        Inl err \<Rightarrow> Inl err
      | Inr ds \<Rightarrow>
          txLoop ts (insert (txID tx) tp)
            (deps \<union> txID ` set (filter (\<lambda>dep. txStatus dep \<noteq> Accepted) ds)))"

text \<open>The variables of the search: the queue of handles and the four sets of IDs.\<close>

record search =
  queue :: "nat list"
  visitedVtx :: "ID set"
  acceptedFrontier :: "ID set"
  transitivePaths :: "ID set"
  dependencies :: "ID set"

definition searchFrom :: "nat \<Rightarrow> search" where
  "searchFrom p =
     \<lparr>queue = [p], visitedVtx = {}, acceptedFrontier = {}, transitivePaths = {},
      dependencies = {}\<rparr>"

text \<open>
  The search visits every vertex ID at most once, and all the IDs that it meets are
  known to the serializer it starts from: the number of known IDs not yet visited, and
  then the length of the queue, decrease.
\<close>

lemma ID_uv_InrD: "ID_uv s p = Inr k \<Longrightarrow> p < length (handles s) \<and> k = id_uv (handles s ! p)"
  by (auto simp: ID_uv_def getHandle_def split: if_splits)

lemma search_measure_le:
  assumes "extends s s'"
  shows "card (knownIDs s' - V) \<le> card (knownIDs s - V)"
proof -
  have "knownIDs s' - V \<subseteq> knownIDs s - V" using extends_knownIDs [OF assms] by blast
  then show ?thesis using finite_knownIDs [of s] by (simp add: card_mono)
qed

lemma search_measure_less:
  assumes ex: "extends s s'" and id: "ID_uv s p = Inr k" and nv: "k \<notin> V"
  shows "card (knownIDs s' - insert k V) < card (knownIDs s - V)"
proof -
  from ID_uv_InrD [OF id] have pv: "p < length (handles s)" and k: "k = id_uv (handles s ! p)"
    by simp_all
  have "k \<in> id_uv ` set (handles s)" using pv k by simp
  then have kin: "k \<in> knownIDs s" by (simp add: knownIDs_def)
  have "knownIDs s' - insert k V \<subseteq> knownIDs s - V" using extends_knownIDs [OF ex] by blast
  moreover have "k \<in> knownIDs s - V" "k \<notin> knownIDs s' - insert k V" using kin nv by simp_all
  ultimately have "knownIDs s' - insert k V \<subset> knownIDs s - V" by blast
  then show ?thesis using finite_knownIDs [of s] by (simp add: psubset_card_mono)
qed

lemma bfs_decreases_skip:
  fixes b b' :: search
  assumes "queue b = cur # rest" and "(s1, r) = Status s cur"
    and "visitedVtx b' = visitedVtx b" and "queue b' = rest"
  shows "((s1, b'), s, b) \<in> inv_image (less_than <*lex*> less_than)
           (\<lambda>(s, b). (card (knownIDs s - visitedVtx b), length (queue b)))"
proof -
  have "extends s s1" using assms(2) extends_Status [of s cur s1 r] by simp
  from search_measure_le [OF this, of "visitedVtx b"] assms show ?thesis by auto
qed

lemma bfs_decreases_visit:
  fixes b b' :: search
  assumes id: "ID_uv s cur = Inr k" and nv: "k \<notin> visitedVtx b"
    and x: "(s1, r) = Status s cur" and y: "(s2, r2) = Txs s1 cur"
    and w: "(s3, r3) = Parents s2 cur"
    and v: "visitedVtx b' = insert k (visitedVtx b)"
  shows "((s3, b'), s, b) \<in> inv_image (less_than <*lex*> less_than)
           (\<lambda>(s, b). (card (knownIDs s - visitedVtx b), length (queue b)))"
proof -
  have "extends s s1" using x extends_Status [of s cur s1 r] by simp
  moreover have "extends s1 s2" using y extends_Txs [of s1 cur s2 r2] by simp
  moreover have "extends s2 s3" using w extends_Parents [of s2 cur s3 r3] by simp
  ultimately have "extends s s3" by (blast intro: extends_trans)
  from search_measure_less [OF this id nv] show ?thesis by (simp add: v)
qed

text \<open>
  The search of \<open>Verify\<close>, \<open>for len(queue) > 0\<close>. An accepted vertex joins the accepted
  frontier and is not searched further; a vertex that was visited is skipped; any other
  vertex is visited: its ID and those of its transactions join the transitive paths,
  and its parents join the queue.
\<close>

function bfs :: "Serializer \<Rightarrow> search \<Rightarrow> search result" where
  "bfs s b =
     (case queue b of
        [] \<Rightarrow> (s, Inr b)
      | cur # rest \<Rightarrow>
          (case ID_uv s cur of
             Inl err \<Rightarrow> (s, Inl err)
           | Inr curID \<Rightarrow>
               (case Status s cur of
                  (s1, Inl err) \<Rightarrow> (s1, Inl err)
                | (s1, Inr st) \<Rightarrow>
                    if st = Accepted
                    then bfs s1 (b\<lparr>queue := rest,
                                   acceptedFrontier := insert curID (acceptedFrontier b)\<rparr>)
                    else if curID \<in> visitedVtx b then bfs s1 (b\<lparr>queue := rest\<rparr>)
                    else
                      (case Txs s1 cur of
                         (s2, Inl err) \<Rightarrow> (s2, Inl err)
                       | (s2, Inr ts) \<Rightarrow>
                           (case txLoop ts (insert curID (transitivePaths b)) (dependencies b) of
                              Inl err \<Rightarrow> (s2, Inl err)
                            | Inr (tp, deps) \<Rightarrow>
                                (case Parents s2 cur of
                                   (s3, Inl err) \<Rightarrow> (s3, Inl err)
                                 | (s3, Inr ps) \<Rightarrow>
                                     bfs s3 (b\<lparr>queue := rest @ ps,
                                               visitedVtx := insert curID (visitedVtx b),
                                               transitivePaths := tp,
                                               dependencies := deps\<rparr>)))))))"
  by pat_completeness auto

termination
proof (relation "inv_image (less_than <*lex*> less_than)
                   (\<lambda>(s, b). (card (knownIDs s - visitedVtx b), length (queue b)))")
  show "wf (inv_image (less_than <*lex*> less_than)
              (\<lambda>(s, b). (card (knownIDs s - visitedVtx b), length (queue b))))"
    by (intro wf_inv_image wf_lex_prod wf_less_than)
next
  fix s and b :: search and cur rest curID s1 r st
  assume "queue b = cur # rest" and "(s1, r) = Status s cur"
  then show "((s1, b\<lparr>queue := rest, acceptedFrontier := insert curID (acceptedFrontier b)\<rparr>), s, b)
        \<in> inv_image (less_than <*lex*> less_than)
             (\<lambda>(s, b). (card (knownIDs s - visitedVtx b), length (queue b)))"
    by (rule bfs_decreases_skip) simp_all
next
  fix s and b :: search and cur rest curID s1 r st
  assume "queue b = cur # rest" and "(s1, r) = Status s cur"
  then show "((s1, b\<lparr>queue := rest\<rparr>), s, b)
        \<in> inv_image (less_than <*lex*> less_than)
             (\<lambda>(s, b). (card (knownIDs s - visitedVtx b), length (queue b)))"
    by (rule bfs_decreases_skip) simp_all
next
  fix s and b :: search and cur rest curID s1 r st s2 r2 ts tp deps s3 r3 ps
  assume "ID_uv s cur = Inr curID" and "curID \<notin> visitedVtx b"
    and "(s1, r) = Status s cur" and "(s2, r2) = Txs s1 cur" and "(s3, r3) = Parents s2 cur"
  then show "((s3, b\<lparr>queue := rest @ ps, visitedVtx := insert curID (visitedVtx b),
                 transitivePaths := tp, dependencies := deps\<rparr>), s, b)
        \<in> inv_image (less_than <*lex*> less_than)
             (\<lambda>(s, b). (card (knownIDs s - visitedVtx b), length (queue b)))"
    by (rule bfs_decreases_visit) simp
qed

declare bfs.simps [simp del]

text \<open>
  The time that \<open>Verify\<close> reads: \<open>time.Now()\<close>, the wall clock \<open>now\<close>, unless the handle has
  a \<open>time\<close> function of its own.
\<close>

definition clock :: "uniqueVertex \<Rightarrow> Time \<Rightarrow> Time" where
  "clock h now = (case time_uv h of None \<Rightarrow> now | Some t \<Rightarrow> t)"


text \<open>
  \<open>Verify\<close>, at the wall-clock time \<open>now\<close>, with the order \<open>ks\<close> in which \<open>range\<close> visits
  the accepted frontier. The stateless vertex is verified first; a stop vertex is then
  refused before the activation time; then the vertices of the frontier are loaded, and
  none may be a stop vertex; a vertex that is not a stop vertex is done. For a stop
  vertex the search follows, then the comparison of the accepted vertices it reached
  with the frontier, and then that of the sizes of the transitive paths without and with
  the dependencies. \<open>vtx.v.vtx.Verify()\<close> on a handle without a state, or on a state
  without a stateless vertex, is a panic.
\<close>

definition Verify :: "Serializer \<Rightarrow> nat \<Rightarrow> Time \<Rightarrow> ID list \<Rightarrow> Serializer \<times> error option" where
  "Verify s p now ks =
     (case deref s p of
        Inl err \<Rightarrow> (s, Some err)
      | Inr (h, a, st) \<Rightarrow>
          (case vtx st of
             None \<Rightarrow> (s, Some errNilPointer)
           | Some sv \<Rightarrow>
               (case svVerify sv of
                  Some err \<Rightarrow> (s, Some err)
                | None \<Rightarrow>
                    let whitelistVtx = svStopVertex sv in
                    if whitelistVtx \<and> clock h now < XChainMigrationTime s
                    then (s, Some errStopVertexNotAllowedTimestamp)
                    else
                      (case edgeLoop s ks of
                         (s1, Some err) \<Rightarrow> (s1, Some err)
                       | (s1, None) \<Rightarrow>
                           if \<not> whitelistVtx then (s1, None)
                           else
                             (case bfs s1 (searchFrom p) of
                                (s2, Inl err) \<Rightarrow> (s2, Some err)
                              | (s2, Inr b) \<Rightarrow>
                                  if acceptedFrontier b \<noteq> edge s
                                  then (s2, Some errUnexpectedEdges)
                                  else if card (transitivePaths b) \<noteq>
                                          card (transitivePaths b \<union> dependencies b)
                                  then (s2, Some errUnexpectedDependencyStopVtx)
                                  else (s2, None))))))"

lemma bfs_invariant:
  assumes run: "bfs s b = (s', Inr b')" and init: "I b"
    and acc: "\<And>b k rest. I b \<Longrightarrow>
                I (b\<lparr>queue := rest, acceptedFrontier := insert k (acceptedFrontier b)\<rparr>)"
    and skip: "\<And>b rest. I b \<Longrightarrow> I (b\<lparr>queue := rest\<rparr>)"
    and visit: "\<And>b q k ts tp deps. I b \<Longrightarrow>
                txLoop ts (insert k (transitivePaths b)) (dependencies b) = Inr (tp, deps) \<Longrightarrow>
                I (b\<lparr>queue := q, visitedVtx := insert k (visitedVtx b),
                     transitivePaths := tp, dependencies := deps\<rparr>)"
  shows "I b'"
  using run init
proof (induction s b rule: bfs.induct)
  case (1 s b)
  note run = "1.prems"(1) and I = "1.prems"(2)
  show ?case
  proof (cases "queue b")
    case Nil
    then show ?thesis using run I by (simp add: bfs.simps)
  next
    case (Cons cur rest)
    show ?thesis
    proof (cases "ID_uv s cur")
      case (Inl err)
      then show ?thesis using run Cons by (simp add: bfs.simps)
    next
      case id: (Inr curID)
      obtain s1 r where st: "Status s cur = (s1, r)" by (cases "Status s cur") blast
      show ?thesis
      proof (cases r)
        case (Inl err)
        then show ?thesis using run Cons id st by (simp add: bfs.simps)
      next
        case r: (Inr stt)
        show ?thesis
        proof (cases "stt = Accepted")
          case True
          let ?b = "b\<lparr>queue := rest, acceptedFrontier := insert curID (acceptedFrontier b)\<rparr>"
          have "bfs s1 ?b = (s', Inr b')" using run Cons id st r True by (simp add: bfs.simps)
          moreover have "I ?b" using I by (rule acc)
          ultimately show ?thesis
            using "1.IH"(1) [OF Cons id st [symmetric] r True] by blast
        next
          case False
          show ?thesis
          proof (cases "curID \<in> visitedVtx b")
            case True
            let ?b = "b\<lparr>queue := rest\<rparr>"
            have "bfs s1 ?b = (s', Inr b')"
              using run Cons id st r False True by (simp add: bfs.simps)
            moreover have "I ?b" using I by (rule skip)
            ultimately show ?thesis
              using "1.IH"(2) [OF Cons id st [symmetric] r False True] by blast
          next
            case nv: False
            obtain s2 r2 where tx: "Txs s1 cur = (s2, r2)" by (cases "Txs s1 cur") blast
            show ?thesis
            proof (cases r2)
              case (Inl err)
              then show ?thesis using run Cons id st r False nv tx by (simp add: bfs.simps)
            next
              case r2: (Inr ts)
              show ?thesis
              proof (cases "txLoop ts (insert curID (transitivePaths b)) (dependencies b)")
                case (Inl err)
                then show ?thesis
                  using run Cons id st r False nv tx r2 by (simp add: bfs.simps)
              next
                case tl: (Inr td)
                obtain tp deps where td: "td = (tp, deps)" by (cases td) blast
                obtain s3 r3 where pa: "Parents s2 cur = (s3, r3)"
                  by (cases "Parents s2 cur") blast
                show ?thesis
                proof (cases r3)
                  case (Inl err)
                  then show ?thesis
                    using run Cons id st r False nv tx r2 tl td pa by (simp add: bfs.simps)
                next
                  case r3: (Inr ps)
                  let ?b = "b\<lparr>queue := rest @ ps, visitedVtx := insert curID (visitedVtx b),
                               transitivePaths := tp, dependencies := deps\<rparr>"
                  have go: "bfs s3 ?b = (s', Inr b')"
                    using run Cons id st r False nv tx r2 tl td pa r3 by (simp add: bfs.simps)
                  have "I ?b" using I tl [unfolded td] by (rule visit)
                  with go show ?thesis
                    using "1.IH"(3) [OF Cons id st [symmetric] r False nv tx [symmetric] r2 tl
                        td [symmetric] pa [symmetric] r3]
                    by blast
                qed
              qed
            qed
          qed
        qed
      qed
    qed
  qed
qed

text \<open>
  An example: a store with the accepted vertices 4, 5 and 6, of which 4 is a stop vertex,
  and the processing vertex 8, a child of 5 whose one transaction, 21, depends on the
  processing transaction 20. Handle 0 holds vertex 9, which is to be verified: its
  stateless vertex \<open>sv\<close> and the accepted frontier \<open>E\<close> are the parameters of the example.
  The activation time of stop vertices is 100.
\<close>

definition rootVertex :: StatelessVertex where
  "rootVertex = \<lparr>svVerify = None, svStopVertex = False, svParentIDs = [], svTxs = []\<rparr>"

definition stopVertex4 :: StatelessVertex where
  "stopVertex4 = \<lparr>svVerify = None, svStopVertex = True, svParentIDs = [], svTxs = []\<rparr>"

definition vertex8 :: StatelessVertex where
  "vertex8 = \<lparr>svVerify = None, svStopVertex = False, svParentIDs = [5], svTxs = [[7]]\<rparr>"

definition stopVertex9 :: StatelessVertex where
  "stopVertex9 = \<lparr>svVerify = None, svStopVertex = True, svParentIDs = [8], svTxs = []\<rparr>"

definition plainVertex9 :: StatelessVertex where
  "plainVertex9 = \<lparr>svVerify = None, svStopVertex = False, svParentIDs = [8], svTxs = []\<rparr>"

definition malformedVertex9 :: StatelessVertex where
  "malformedVertex9 =
     \<lparr>svVerify = Some (StatelessErr ''malformed''), svStopVertex = True, svParentIDs = [8],
      svTxs = []\<rparr>"

definition tx21 :: Tx where
  "tx21 = Tx 21 Processing (Inr [Tx 20 Processing (Inr [])])"

definition verifyStore :: "StatelessVertex \<Rightarrow> ID set \<Rightarrow> Serializer" where
  "verifyStore sv E =
     \<lparr>handles = [\<lparr>id_uv = 9, v_uv = Some 0, time_uv = None\<rparr>],
      states = [\<lparr>latest = True, vtx = Some sv, status = Processing, parents = [], txs = []\<rparr>],
      uniqueVtx = [0], cacheSize = 8,
      dbStatus = [4 \<mapsto> Accepted, 5 \<mapsto> Accepted, 6 \<mapsto> Accepted, 8 \<mapsto> Processing,
                  9 \<mapsto> Processing],
      dbVertex = [(4, stopVertex4), (5, rootVertex), (6, rootVertex), (8, vertex8), (9, sv)],
      edge = E, written = [],
      dbFails = (\<lambda>w. None), ParseTx = (\<lambda>b. Inr tx21),
      XChainMigrationTime = 100\<rparr>"

text \<open>
  The same store with the frontier \<open>{4}\<close>, where the handle of the stop vertex 9 has a
  \<open>time\<close> function of its own, which returns 200.
\<close>

definition clockedStore :: Serializer where
  "clockedStore =
     (verifyStore stopVertex9 {4})\<lparr>handles := [\<lparr>id_uv = 9, v_uv = Some 0, time_uv = Some 200\<rparr>]\<rparr>"

lemmas verify_defs =
  getUniqueVertex_def Status_def Txs_def Parents_def ID_uv_def refresh_def shallowRefresh_def
  ensureState_def refreshLatest_def UniqueVertex_def cached_def Evict_def deref_def
  getHandle_def getState_def setState_def setHandle_def newHandle_def newState_def
  stateStatus_def stateVertex_def Fetched_def Let_def searchFrom_def

lemmas example_defs =
  verifyStore_def rootVertex_def stopVertex4_def vertex8_def stopVertex9_def plainVertex9_def
  malformedVertex9_def tx21_def




lemma txLoop_mono:
  "txLoop ts tp deps = Inr (tp', deps') \<Longrightarrow> tp \<subseteq> tp' \<and> deps \<subseteq> deps'"
proof (induction ts tp deps rule: txLoop.induct)
  case (1 tp deps)
  then show ?case by simp
next
  case (2 ts tp deps)
  then show ?case by simp
next
  case (3 tx ts tp deps)
  then show ?case by (cases "txDependencies tx") auto
qed


text \<open>Every vertex that the search visited is in the transitive paths.\<close>

lemma bfs_visited:
  assumes "bfs s (searchFrom p) = (s', Inr b)"
  shows "visitedVtx b \<subseteq> transitivePaths b"
proof (rule bfs_invariant [OF assms, where I = "\<lambda>b. visitedVtx b \<subseteq> transitivePaths b"])
  show "visitedVtx (searchFrom p) \<subseteq> transitivePaths (searchFrom p)"
    by (simp add: searchFrom_def)
next
  fix b :: search and q k ts tp deps
  assume "visitedVtx b \<subseteq> transitivePaths b"
    and "txLoop ts (insert k (transitivePaths b)) (dependencies b) = Inr (tp, deps)"
  then show "visitedVtx (b\<lparr>queue := q, visitedVtx := insert k (visitedVtx b),
                       transitivePaths := tp, dependencies := deps\<rparr>)
             \<subseteq> transitivePaths (b\<lparr>queue := q, visitedVtx := insert k (visitedVtx b),
                       transitivePaths := tp, dependencies := deps\<rparr>)"
    using txLoop_mono [of ts "insert k (transitivePaths b)" "dependencies b" tp deps] by auto
qed simp_all



text \<open>
  C7, amended. For a stop vertex, when the time that \<open>Verify\<close> reads is before the
  activation time, \<open>Verify\<close> returns \<open>errStopVertexNotAllowedTimestamp\<close> if the stateless
  vertex passes its own verification, and otherwise the error of that verification; in
  both cases the serializer is returned as it was.
\<close>

theorem C7_stop_vertex_before_activation:
  assumes "deref s p = Inr (h, a, st)" and "vtx st = Some sv" and "svStopVertex sv"
    and "clock h now < XChainMigrationTime s"
  shows "Verify s p now ks =
           (s, Some (case svVerify sv of
                       None \<Rightarrow> errStopVertexNotAllowedTimestamp
                     | Some err \<Rightarrow> err))"
  using assms by (cases "svVerify sv") (simp_all add: Verify_def)







text \<open>
  The witness of C7: the stop vertex 9 is verified at time 50, before the activation
  time 100.
\<close>

theorem C7_stop_vertex_before_activation_witness:
  "deref (verifyStore stopVertex9 {5, 6}) 0 =
     Inr (\<lparr>id_uv = 9, v_uv = Some 0, time_uv = None\<rparr>, 0,
          \<lparr>latest = True, vtx = Some stopVertex9, status = Processing, parents = [],
             txs = []\<rparr>) \<and>
   svStopVertex stopVertex9 \<and>
   clock \<lparr>id_uv = 9, v_uv = Some 0, time_uv = None\<rparr> 50
     < XChainMigrationTime (verifyStore stopVertex9 {5, 6}) \<and>
   Verify (verifyStore stopVertex9 {5, 6}) 0 50 [5, 6] =
     (verifyStore stopVertex9 {5, 6}, Some errStopVertexNotAllowedTimestamp)"
proof -
  let ?s = "verifyStore stopVertex9 {5, 6}"
  let ?h = "\<lparr>id_uv = 9, v_uv = Some 0, time_uv = None\<rparr>"
  let ?st = "\<lparr>latest = True, vtx = Some stopVertex9, status = Processing, parents = [],
               txs = []\<rparr>"
  have d: "deref ?s 0 = Inr (?h, 0, ?st)"
    by (simp add: verifyStore_def deref_def getHandle_def getState_def)
  have v: "vtx ?st = Some stopVertex9" by simp
  have f: "svStopVertex stopVertex9" by (simp add: stopVertex9_def)
  have t: "clock ?h 50 < XChainMigrationTime ?s" by (simp add: clock_def verifyStore_def)
  have n: "svVerify stopVertex9 = None" by (simp add: stopVertex9_def)
  from C7_stop_vertex_before_activation [OF d v f t, of "[5, 6]"]
  have "Verify ?s 0 50 [5, 6] = (?s, Some errStopVertexNotAllowedTimestamp)"
    unfolding n by simp
  with d f t show ?thesis by blast
qed

text \<open>
  C7, as the specification states it, fails for a stop vertex that does not pass its
  stateless verification: before the activation time, \<open>Verify\<close> returns the error of that
  verification, not \<open>errStopVertexNotAllowedTimestamp\<close>. It also fails for a handle with
  a \<open>time\<close> function of its own: in \<open>clockedStore\<close> the wall clock says 50, before the
  activation time 100, the handle's function says 200, and \<open>Verify\<close> goes on to the loop
  over the frontier, where it finds the accepted stop vertex 4.
\<close>

theorem C7_stateless_error_first_counterexample:
  "deref (verifyStore malformedVertex9 {5, 6}) 0 =
     Inr (\<lparr>id_uv = 9, v_uv = Some 0, time_uv = None\<rparr>, 0,
          \<lparr>latest = True, vtx = Some malformedVertex9, status = Processing, parents = [],
             txs = []\<rparr>) \<and>
   svStopVertex malformedVertex9 \<and>
   clock \<lparr>id_uv = 9, v_uv = Some 0, time_uv = None\<rparr> 50
     < XChainMigrationTime (verifyStore malformedVertex9 {5, 6}) \<and>
   Verify (verifyStore malformedVertex9 {5, 6}) 0 50 [5, 6] =
     (verifyStore malformedVertex9 {5, 6}, Some (StatelessErr ''malformed'')) \<and>
   deref clockedStore 0 =
     Inr (\<lparr>id_uv = 9, v_uv = Some 0, time_uv = Some 200\<rparr>, 0,
          \<lparr>latest = True, vtx = Some stopVertex9, status = Processing, parents = [],
             txs = []\<rparr>) \<and>
   svStopVertex stopVertex9 \<and> svVerify stopVertex9 = None \<and>
   50 < XChainMigrationTime clockedStore \<and>
   snd (Verify clockedStore 0 50 [4]) = Some errStopVertexAlreadyAccepted"
proof -
  have "Verify (verifyStore malformedVertex9 {5, 6}) 0 50 [5, 6] =
     (verifyStore malformedVertex9 {5, 6}, Some (StatelessErr ''malformed''))"
    by (simp add: Verify_def clock_def verifyStore_def malformedVertex9_def deref_def
        getHandle_def getState_def)
  moreover have "snd (Verify clockedStore 0 50 [4]) = Some errStopVertexAlreadyAccepted"
    by (simp add: Verify_def clock_def clockedStore_def verify_defs example_defs)
  moreover have "deref clockedStore 0 =
     Inr (\<lparr>id_uv = 9, v_uv = Some 0, time_uv = Some 200\<rparr>, 0,
          \<lparr>latest = True, vtx = Some stopVertex9, status = Processing, parents = [],
             txs = []\<rparr>)"
    "deref (verifyStore malformedVertex9 {5, 6}) 0 =
     Inr (\<lparr>id_uv = 9, v_uv = Some 0, time_uv = None\<rparr>, 0,
          \<lparr>latest = True, vtx = Some malformedVertex9, status = Processing, parents = [],
             txs = []\<rparr>)"
    by (simp_all add: clockedStore_def verifyStore_def deref_def getHandle_def getState_def)
  moreover have "svStopVertex malformedVertex9" "svStopVertex stopVertex9"
    "svVerify stopVertex9 = None"
    by (simp_all add: malformedVertex9_def stopVertex9_def)
  moreover have "clock \<lparr>id_uv = 9, v_uv = Some 0, time_uv = None\<rparr> 50
     < XChainMigrationTime (verifyStore malformedVertex9 {5, 6})"
    "50 < XChainMigrationTime clockedStore"
    by (simp_all add: clock_def clockedStore_def verifyStore_def)
  ultimately show ?thesis by blast
qed





end
